theory Spec2Isabelle
  imports Main "HOL-Library.Sublist"
begin

section \<open>Python strings and exceptions\<close>

text \<open>
  The script \<^verbatim>\<open>create-svg-icon-set-file.py\<close> is Python 2 (it takes \<^verbatim>\<open>len\<close> of a
  \<^verbatim>\<open>filter\<close> result and divides integers with \<^verbatim>\<open>/\<close>). Its strings are byte strings,
  modelled as \<^typ>\<open>string\<close>. Every exception the script can raise is a value of
  \<open>error\<close>; a function that can raise returns \<open>error + 'a\<close>.
\<close>

datatype error =
  ValueError | IndexError | AttributeError | AssertionError | IOError | ZeroDivisionError

abbreviation NL :: char where "NL \<equiv> CHR 0x0A"
abbreviation DQ :: char where "DQ \<equiv> CHR 0x22"

text \<open>\<^verbatim>\<open>s.find(sub)\<close>: the index of the leftmost occurrence.\<close>

fun find_sub :: "string \<Rightarrow> string \<Rightarrow> nat option" where
  "find_sub sub [] = (if sub = [] then Some 0 else None)"
| "find_sub sub (c # cs) =
     (if prefix sub (c # cs) then Some 0 else map_option Suc (find_sub sub cs))"

text \<open>\<^verbatim>\<open>s.index(sub, start)\<close> raises ValueError when there is no occurrence.\<close>

definition py_index :: "string \<Rightarrow> string \<Rightarrow> nat \<Rightarrow> error + nat" where
  "py_index s sub start =
     (case find_sub sub (drop start s) of
        None \<Rightarrow> Inl ValueError
      | Some i \<Rightarrow> Inr (start + i))"

text \<open>\<^verbatim>\<open>s[a:b]\<close> for \<open>a \<le> b\<close>.\<close>

definition py_slice :: "string \<Rightarrow> nat \<Rightarrow> nat \<Rightarrow> string" where
  "py_slice s a b = take (b - a) (drop a s)"

section \<open>Regular expressions of the script\<close>

text \<open>
  A matcher takes the text at the current scan position and returns the length of the
  match that starts there. \<^verbatim>\<open>re.sub\<close> scans from the left: at a match it emits the
  replacement and continues behind the match, otherwise it copies one character. None of
  the script's patterns matches the empty string, so a match of length 0 is treated as no
  match.
\<close>

function re_sub :: "(string \<Rightarrow> nat option) \<Rightarrow> string \<Rightarrow> string \<Rightarrow> string" where
  "re_sub m repl [] = []"
| "re_sub m repl (c # cs) =
     (case m (c # cs) of
        Some (Suc k) \<Rightarrow> repl @ re_sub m repl (drop k cs)
      | _ \<Rightarrow> c # re_sub m repl cs)"
  by pat_completeness auto
termination
  by (relation "measure (\<lambda>(m, repl, s). length s)") auto

text \<open>\<^verbatim>\<open>re.search\<close>: the leftmost position at which the matcher succeeds.\<close>

fun re_search :: "(string \<Rightarrow> 'a option) \<Rightarrow> string \<Rightarrow> 'a option" where
  "re_search m [] = m []"
| "re_search m (c # cs) =
     (case m (c # cs) of Some r \<Rightarrow> Some r | None \<Rightarrow> re_search m cs)"

text \<open>
  A pattern made of single characters, where the regex dot matches every character but a
  newline. The patterns \<^verbatim>\<open>xmlns_re\<close> and \<^verbatim>\<open>xlink_re\<close> are of this kind (their dots are
  not escaped in the source), as are \<^verbatim>\<open>svg_close_tag_re\<close> and \<^verbatim>\<open>path_close_tag_re\<close>.
\<close>

fun match_chars :: "string \<Rightarrow> string \<Rightarrow> bool" where
  "match_chars [] s = True"
| "match_chars (p # ps) [] = False"
| "match_chars (p # ps) (c # cs) =
     ((if p = CHR ''.'' then c \<noteq> NL else p = c) \<and> match_chars ps cs)"

definition re_chars :: "string \<Rightarrow> string \<Rightarrow> nat option" where
  "re_chars pat s = (if match_chars pat s then Some (length pat) else None)"

text \<open>
  The attribute patterns \<^verbatim>\<open> name="[^"]+"\<close>: a space, the name, \<^verbatim>\<open>="\<close>, one or more
  characters other than a double quote, and a double quote. The result is the length of
  the match and the value (group 1 of \<^verbatim>\<open>width_re\<close> and \<^verbatim>\<open>height_re\<close>).
\<close>

definition re_attr_group :: "string \<Rightarrow> string \<Rightarrow> (nat \<times> string) option" where
  "re_attr_group name s =
     (let lit = CHR '' '' # name @ [CHR ''='', DQ] in
      if prefix lit s then
        (let r = drop (length lit) s; v = takeWhile (\<lambda>c. c \<noteq> DQ) r in
         if v \<noteq> [] \<and> length v < length r
         then Some (length lit + length v + 1, v) else None)
      else None)"

definition re_attr :: "string \<Rightarrow> string \<Rightarrow> nat option" where
  "re_attr name s = map_option fst (re_attr_group name s)"

text \<open>\<^verbatim>\<open>\s\<close> in a byte-string pattern without flags: space, \<^verbatim>\<open>\t \n \r \f \v\<close>.\<close>

definition is_space :: "char \<Rightarrow> bool" where
  "is_space c = (c \<in> set [CHR '' '', CHR 0x09, NL, CHR 0x0D, CHR 0x0C, CHR 0x0B])"

definition xmlns_re :: "string \<Rightarrow> nat option" where
  \<open>xmlns_re = re_chars '' xmlns="http://www.w3.org/2000/svg"''\<close>

definition xlink_re :: "string \<Rightarrow> nat option" where
  \<open>xlink_re = re_chars '' xmlns:xlink="http://www.w3.org/1999/xlink"''\<close>

definition version_re :: "string \<Rightarrow> nat option" where
  "version_re = re_attr ''version''"

definition id_re :: "string \<Rightarrow> nat option" where
  "id_re = re_attr ''id''"

definition x_re :: "string \<Rightarrow> nat option" where
  "x_re = re_attr ''x''"

definition y_re :: "string \<Rightarrow> nat option" where
  "y_re = re_attr ''y''"

definition enable_background_re :: "string \<Rightarrow> nat option" where
  "enable_background_re = re_attr ''enable-background''"

definition xml_space_re :: "string \<Rightarrow> nat option" where
  "xml_space_re = re_attr ''xml:space''"

definition fill_re :: "string \<Rightarrow> nat option" where
  "fill_re = re_attr ''fill''"

text \<open>
  \<^verbatim>\<open>empty_g_re = "<g>\s+</g>\s*\n"\<close>. After \<^verbatim>\<open><g>\<close> the greedy \<^verbatim>\<open>\s+\<close> must take the
  whole run of white space, since \<^verbatim>\<open><\<close> is not white space. The greedy \<^verbatim>\<open>\s*\<close> before
  \<^verbatim>\<open>\n\<close> backtracks to the last newline of the white space that follows \<^verbatim>\<open></g>\<close>; with
  no newline in that run there is no match.
\<close>

definition empty_g_re :: "string \<Rightarrow> nat option" where
  "empty_g_re s =
     (if prefix ''<g>'' s then
        (let r1 = drop 3 s; w1 = takeWhile is_space r1; r2 = drop (length w1) r1 in
         if w1 \<noteq> [] \<and> prefix ''</g>'' r2 then
           (let w2 = takeWhile is_space (drop 4 r2);
                upto_nl = rev (dropWhile (\<lambda>c. c \<noteq> NL) (rev w2)) in
            if upto_nl \<noteq> [] then Some (3 + length w1 + 4 + length upto_nl) else None)
         else None)
      else None)"

text \<open>\<^verbatim>\<open>path_open_tag_re = "[ \t]*<path "\<close>.\<close>

definition path_open_tag_re :: "string \<Rightarrow> nat option" where
  "path_open_tag_re s =
     (let w = takeWhile (\<lambda>c. c = CHR '' '' \<or> c = CHR 0x09) s in
      if prefix ''<path '' (drop (length w) s) then Some (length w + 6) else None)"

definition svg_close_tag_re :: "string \<Rightarrow> nat option" where
  "svg_close_tag_re = re_chars ''</svg>''"

definition path_close_tag_re :: "string \<Rightarrow> nat option" where
  "path_close_tag_re = re_chars ''></path>''"

text \<open>
  \<^verbatim>\<open>svg_open_tag_re = "^\s*<svg "\<close> is compiled without \<^verbatim>\<open>re.M\<close>, so \<^verbatim>\<open>^\<close> matches at
  the start of the string only and \<^verbatim>\<open>sub\<close> replaces at most that one match.
\<close>

definition svg_open_tag_sub :: "string \<Rightarrow> string \<Rightarrow> string" where
  "svg_open_tag_sub repl s =
     (let w = takeWhile is_space s in
      if prefix ''<svg '' (drop (length w) s)
      then repl @ drop (length w + 5) s else s)"

text \<open>
  \<^verbatim>\<open>s.replace(old, new)\<close> for a non-empty \<open>old\<close> replaces the leftmost non-overlapping
  occurrences, which is the same scan. The script only calls it with non-empty literals.
\<close>

definition py_replace :: "string \<Rightarrow> string \<Rightarrow> string \<Rightarrow> string" where
  "py_replace old new s =
     re_sub (\<lambda>t. if prefix old t then Some (length old) else None) new s"

section \<open>The normalizer\<close>

text \<open>Lines 98 to 110 of the script: the substitutions on the start tag.\<close>

definition clean_start_tag :: "string \<Rightarrow> string \<Rightarrow> string" where
  \<open>clean_start_tag start_tag icon_name =
     (let start_tag = re_sub xmlns_re [] start_tag;
          start_tag = re_sub xlink_re [] start_tag;
          start_tag = re_sub id_re [] start_tag;
          start_tag = re_sub version_re [] start_tag;
          start_tag = re_sub x_re [] start_tag;
          start_tag = re_sub y_re [] start_tag;
          start_tag = re_sub enable_background_re [] start_tag;
          start_tag = re_sub xml_space_re [] start_tag
      in py_replace ''<svg'' (''  <svg id="'' @ icon_name @ [DQ]) start_tag)\<close>

text \<open>Lines 112 to 120: the substitutions on the text behind the start tag.\<close>

definition clean_the_rest :: "string \<Rightarrow> string" where
  "clean_the_rest the_rest =
     (let the_rest = re_sub empty_g_re [] the_rest;
          the_rest = re_sub fill_re [] the_rest;
          the_rest = re_sub path_close_tag_re ''/>'' the_rest;
          the_rest = svg_open_tag_sub ''  <svg '' the_rest;
          the_rest = re_sub path_open_tag_re ''    <path '' the_rest;
          the_rest = re_sub svg_close_tag_re ''  </svg>'' the_rest
      in the_rest)"

text \<open>
  Lines 121 to 124. \<^verbatim>\<open>the_rest[0]\<close> raises IndexError on the empty string; behind the
  first test the string is not empty, so \<^verbatim>\<open>the_rest[-1]\<close> cannot raise.
\<close>

definition ensure_newlines :: "string \<Rightarrow> error + string" where
  "ensure_newlines the_rest =
     (case the_rest of
        [] \<Rightarrow> Inl IndexError
      | c # cs \<Rightarrow>
          (let the_rest = (if c \<noteq> NL then NL # the_rest else the_rest);
               the_rest = (if last the_rest \<noteq> NL then the_rest @ [NL] else the_rest)
           in Inr the_rest))"

definition clean_markup :: "string \<Rightarrow> string \<Rightarrow> error + string" where
  "clean_markup markup icon_name =
     (case py_index markup ''<svg '' 0 of
        Inl e \<Rightarrow> Inl e
      | Inr start_index \<Rightarrow>
     (case py_index markup ''>'' (start_index + 1) of
        Inl e \<Rightarrow> Inl e
      | Inr i \<Rightarrow>
     (let end_of_start_tag_index = i + 1;
          start_tag = py_slice markup start_index end_of_start_tag_index;
          the_rest = drop end_of_start_tag_index markup;
          start_tag = clean_start_tag start_tag icon_name
      in case ensure_newlines (clean_the_rest the_rest) of
           Inl e \<Rightarrow> Inl e
         | Inr the_rest \<Rightarrow> Inr (start_tag @ the_rest))))"

section \<open>The dimension extractor\<close>

text \<open>
  \<^verbatim>\<open>int(s)\<close> on a byte string in Python 2: white space around the number is ignored, a
  sign is allowed and may be followed by white space, the rest must be one or more decimal
  digits; anything else raises ValueError.
\<close>

definition is_digit :: "char \<Rightarrow> bool" where
  "is_digit c = (c \<in> set ''0123456789'')"

definition digits_value :: "string \<Rightarrow> int" where
  "digits_value ds = foldl (\<lambda>acc c. 10 * acc + (of_char c - 48)) 0 ds"

definition strip :: "string \<Rightarrow> string" where
  "strip s = rev (dropWhile is_space (rev (dropWhile is_space s)))"

definition py_int :: "string \<Rightarrow> error + int" where
  "py_int s =
     (let t = strip s;
          neg = (t \<noteq> [] \<and> hd t = CHR ''-'');
          ds = (if t \<noteq> [] \<and> (hd t = CHR ''-'' \<or> hd t = CHR ''+'')
                then dropWhile is_space (tl t) else t)
      in if ds \<noteq> [] \<and> list_all is_digit ds
         then Inr (if neg then - digits_value ds else digits_value ds)
         else Inl ValueError)"

text \<open>\<^verbatim>\<open>str(n)\<close> of an integer.\<close>

fun str_nat :: "nat \<Rightarrow> string" where
  "str_nat n =
     (if n < 10 then [char_of (48 + n)]
      else str_nat (n div 10) @ [char_of (48 + n mod 10)])"

declare str_nat.simps [simp del]

definition py_str :: "int \<Rightarrow> string" where
  "py_str i = (if i < 0 then CHR ''-'' # str_nat (nat (- i)) else str_nat (nat i))"

text \<open>
  \<^verbatim>\<open>width_re.search(markup)\<close> is None when nothing matches, and \<^verbatim>\<open>.group\<close> on None
  raises AttributeError.
\<close>

definition search_group :: "string \<Rightarrow> string \<Rightarrow> error + string" where
  "search_group name markup =
     (case re_search (re_attr_group name) markup of
        None \<Rightarrow> Inl AttributeError
      | Some (n, v) \<Rightarrow> Inr v)"

definition get_icon_dimensions_from_markup :: "string \<Rightarrow> error + (int \<times> int)" where
  "get_icon_dimensions_from_markup markup =
     (case search_group ''width'' markup of
        Inl e \<Rightarrow> Inl e
      | Inr g \<Rightarrow>
     (case py_int (py_replace ''px'' [] g) of
        Inl e \<Rightarrow> Inl e
      | Inr width \<Rightarrow>
     (case search_group ''height'' markup of
        Inl e \<Rightarrow> Inl e
      | Inr g \<Rightarrow>
     (case py_int (py_replace ''px'' [] g) of
        Inl e \<Rightarrow> Inl e
      | Inr height \<Rightarrow> Inr (width, height)))))"

section \<open>The loader and the dimension check\<close>

text \<open>
  Lines 137 to 140. An entry of the directory listing is a file name with the text that
  \<^verbatim>\<open>open(...).read()\<close> returns, or None when the entry cannot be opened or read
  (IOError). The icon name is \<^verbatim>\<open>icon.replace(".svg", "")\<close>.
\<close>

type_synonym listing = "(string \<times> string option) list"

text \<open>Line 68: \<^verbatim>\<open>n[-4:] == ".svg"\<close>.\<close>

definition svg_suffix :: "string \<Rightarrow> bool" where
  "svg_suffix n = (drop (length n - 4) n = ''.svg'')"

definition icon_name_of :: "string \<Rightarrow> string" where
  "icon_name_of icon = py_replace ''.svg'' [] icon"

fun load_icons :: "listing \<Rightarrow> error + string list" where
  "load_icons [] = Inr []"
| "load_icons ((icon, content) # icons) =
     (case content of
        None \<Rightarrow> Inl IOError
      | Some markup \<Rightarrow>
     (case clean_markup markup (icon_name_of icon) of
        Inl e \<Rightarrow> Inl e
      | Inr markup \<Rightarrow>
     (case load_icons icons of
        Inl e \<Rightarrow> Inl e
      | Inr icons_markup \<Rightarrow> Inr (markup # icons_markup))))"

text \<open>Lines 144 and 145, over the normalized markup.\<close>

fun icons_dimensions_of :: "string list \<Rightarrow> error + (int \<times> int) list" where
  "icons_dimensions_of [] = Inr []"
| "icons_dimensions_of (markup # icons_markup) =
     (case get_icon_dimensions_from_markup markup of
        Inl e \<Rightarrow> Inl e
      | Inr dim \<Rightarrow>
     (case icons_dimensions_of icons_markup of
        Inl e \<Rightarrow> Inl e
      | Inr dims \<Rightarrow> Inr (dim # dims)))"

text \<open>
  Lines 148 to 156. The loop state is \<open>warn\<close> and the variables \<open>width\<close> and \<open>height\<close>,
  which are unbound (None) until the loop assigns them; nothing reads them afterwards.
\<close>

record dim_check =
  warn :: bool
  width :: "int option"
  height :: "int option"

definition check_step :: "int \<Rightarrow> int \<Rightarrow> dim_check \<Rightarrow> int \<times> int \<Rightarrow> dim_check" where
  "check_step icon_width icon_height st dim =
     (case dim of (w, h) \<Rightarrow>
        (let st = (if w \<noteq> icon_width
                   then st\<lparr>warn := True, width := Some (max w icon_width)\<rparr> else st);
             st = (if h \<noteq> icon_height
                   then st\<lparr>warn := True, height := Some (max h icon_height)\<rparr> else st)
         in st))"

definition check_dimensions :: "int \<Rightarrow> int \<Rightarrow> (int \<times> int) list \<Rightarrow> dim_check" where
  "check_dimensions icon_width icon_height icons_dimensions =
     foldl (check_step icon_width icon_height)
       \<lparr>warn = False, width = None, height = None\<rparr> icons_dimensions"

definition warning_text :: string where
  "warning_text =
     [NL] @ ''<!-- !!! WARNING: NOT ALL ICON FILES HAVE THE SAME DIMENSIONS !!! -->''
       @ [NL, NL]"

section \<open>The layout composer\<close>

definition provenance :: string where
  "provenance =
     ''<!-- from https://github.com/gaia-components/gaia-icons/tree/master/images -->''
       @ [NL]"

text \<open>Lines 164 to 171.\<close>

definition stacked_output :: "int \<Rightarrow> int \<Rightarrow> string list \<Rightarrow> string" where
  \<open>stacked_output icon_width icon_height icons_markup =
     provenance
     @ ''<svg xmlns="http://www.w3.org/2000/svg" width="'' @ py_str icon_width
     @ ''" height="'' @ py_str icon_height @ ''" fill="blue">'' @ [NL]
     @ ''  <style>'' @ [NL]
     @ ''    :root > svg { visibility: hidden; }'' @ [NL]
     @ ''    :root > svg:target { visibility: visible; }'' @ [NL]
     @ ''  </style>'' @ [NL]
     @ concat icons_markup
     @ ''</svg>'' @ [NL]\<close>

text \<open>
  Lines 176 and 177 compute \<^verbatim>\<open>cols\<close> and \<^verbatim>\<open>rows\<close> in floating point:
  \<^verbatim>\<open>int(math.ceil(math.sqrt(n)))\<close> and \<^verbatim>\<open>int(math.ceil(n / float(cols)))\<close>. For the
  counts an icon directory can have (far below \<open>2 ^ 52\<close>) the rounded results are the
  exact ones, which is what the model computes: the least \<open>c\<close> with \<open>n \<le> c * c\<close>, and
  the quotient rounded up. The division of line 177 raises ZeroDivisionError when
  \<^verbatim>\<open>cols\<close> is 0, that is, when there is no icon.
\<close>

function ceil_sqrt_from :: "nat \<Rightarrow> nat \<Rightarrow> nat" where
  "ceil_sqrt_from n c = (if n \<le> c * c then c else ceil_sqrt_from n (Suc c))"
  by pat_completeness auto
termination
  by (relation "measure (\<lambda>(n, c). n - c * c)") auto

declare ceil_sqrt_from.simps [simp del]

definition grid_cols :: "nat \<Rightarrow> nat" where
  "grid_cols n = ceil_sqrt_from n 0"

definition grid_rows :: "nat \<Rightarrow> nat \<Rightarrow> error + nat" where
  "grid_rows n cols =
     (if cols = 0 then Inl ZeroDivisionError else Inr ((n + cols - 1) div cols))"

definition padding :: int where
  "padding = 5"

text \<open>
  Lines 186 to 193, the body of the loop for icon \<open>i\<close>. \<^verbatim>\<open>i / cols\<close> is the integer
  division of Python 2.
\<close>

definition grid_icon :: "nat \<Rightarrow> int \<Rightarrow> int \<Rightarrow> nat \<Rightarrow> string \<Rightarrow> error + string" where
  \<open>grid_icon cols icon_width icon_height i markup =
     (let row = i div cols;
          col = i mod cols;
          x = padding + int col * icon_width;
          y = padding + int row * icon_height
      in if take 6 markup \<noteq> ''  <svg'' then Inl AssertionError
         else Inr (take 6 markup @ '' x="'' @ py_str x @ ''" y="'' @ py_str y @ [DQ]
                   @ drop 6 markup))\<close>

fun grid_loop :: "nat \<Rightarrow> int \<Rightarrow> int \<Rightarrow> nat \<Rightarrow> string list \<Rightarrow> string \<Rightarrow> error + string" where
  "grid_loop cols icon_width icon_height i [] output = Inr output"
| "grid_loop cols icon_width icon_height i (markup # icons_markup) output =
     (case grid_icon cols icon_width icon_height i markup of
        Inl e \<Rightarrow> Inl e
      | Inr markup \<Rightarrow>
          grid_loop cols icon_width icon_height (Suc i) icons_markup (output @ markup))"

definition grid_output :: "int \<Rightarrow> int \<Rightarrow> string list \<Rightarrow> error + string" where
  \<open>grid_output icon_width icon_height icons_markup =
     (let cols = grid_cols (length icons_markup) in
      case grid_rows (length icons_markup) cols of
        Inl e \<Rightarrow> Inl e
      | Inr rows \<Rightarrow>
     (let total_width = py_str (icon_width * int cols + padding * (int cols + 1));
          total_height = py_str (icon_height * int rows + padding * (int rows + 1));
          output = provenance @ ''<svg xmlns="http://www.w3.org/2000/svg" fill="blue">'' @ [NL]
      in case grid_loop cols icon_width icon_height 0 icons_markup output of
           Inl e \<Rightarrow> Inl e
         | Inr output \<Rightarrow> Inr (output @ ''</svg>'' @ [NL])))\<close>

definition compose :: "bool \<Rightarrow> int \<Rightarrow> int \<Rightarrow> string list \<Rightarrow> error + string" where
  "compose use_grid_layout icon_width icon_height icons_markup =
     (if \<not> use_grid_layout then Inr (stacked_output icon_width icon_height icons_markup)
      else grid_output icon_width icon_height icons_markup)"

section \<open>The script\<close>

text \<open>
  What a run leaves behind: the text written to standard error and to standard output,
  the content written to the file at \<^verbatim>\<open>iconset_path\<close> (None when the file was never
  opened), and how the process ended. An uncaught exception ends it with a traceback,
  which is not part of \<open>err_text\<close>.
\<close>

datatype exit = Exit nat | Uncaught error

record outcome =
  err_text :: string
  out_text :: string
  file_text :: "string option"
  exit_status :: exit

definition failed :: "string \<Rightarrow> exit \<Rightarrow> outcome" where
  "failed err ex = \<lparr>err_text = err, out_text = [], file_text = None, exit_status = ex\<rparr>"

text \<open>
  Lines 60 to 201. \<open>usage\<close> is the line that \<^verbatim>\<open>parser.print_usage\<close> prints; \<open>dir\<close> is
  None when \<^verbatim>\<open>iconsdir_path\<close> is not a directory and its listing otherwise;
  \<open>writable\<close> tells whether opening \<^verbatim>\<open>iconset_path\<close> for writing succeeds.
\<close>

definition main ::
  "bool \<Rightarrow> string \<Rightarrow> string \<Rightarrow> string option \<Rightarrow> listing option \<Rightarrow> bool \<Rightarrow> outcome" where
  "main use_grid_layout usage iconsdir_path iconset_path dir writable =
     (case dir of
        None \<Rightarrow>
          (if iconsdir_path = ''./images''
           then failed (''Error: The default icon files directory \"./images\" does not exist.''
                        @ [NL] @ usage) (Exit 1)
           else failed (''Error: Not a valid icon files directory: '' @ iconsdir_path @ [NL])
                  (Exit 1))
      | Some entries \<Rightarrow>
     (let icons = filter (\<lambda>(n, content). svg_suffix n) entries in
      if length icons < 1
      then failed (''Error: No .svg icon files found in directory: '' @ iconsdir_path @ [NL])
             (Exit 1)
      else
     (case load_icons icons of
        Inl e \<Rightarrow> failed [] (Uncaught e)
      | Inr icons_markup \<Rightarrow>
     (case icons_dimensions_of icons_markup of
        Inl e \<Rightarrow> failed [] (Uncaught e)
      | Inr icons_dimensions \<Rightarrow>
     (case hd icons_dimensions of (icon_width, icon_height) \<Rightarrow>
     (let err = (if warn (check_dimensions icon_width icon_height icons_dimensions)
                 then warning_text else [])
      in case compose use_grid_layout icon_width icon_height icons_markup of
           Inl e \<Rightarrow> failed err (Uncaught e)
         | Inr output \<Rightarrow>
             (if iconset_path \<noteq> None \<and> the iconset_path \<noteq> []
              then (if writable
                    then \<lparr>err_text = err, out_text = [], file_text = Some output,
                           exit_status = Exit 0\<rparr>
                    else failed err (Uncaught IOError))
              else \<lparr>err_text = err, out_text = output, file_text = None,
                     exit_status = Exit 0\<rparr>)))))))"

text \<open>The document a run produced, on standard output or in the file.\<close>

definition document :: "outcome \<Rightarrow> string" where
  "document r = (case file_text r of Some t \<Rightarrow> t | None \<Rightarrow> out_text r)"

definition contains :: "string \<Rightarrow> string \<Rightarrow> bool" where
  "contains sub s = (find_sub sub s \<noteq> None)"



section \<open>Example icon directories\<close>

definition icon_24 :: string where
  \<open>icon_24 = ''<svg width="24" height="24"><path d="M0 0"/></svg>''\<close>


definition icon_10 :: string where
  \<open>icon_10 = ''<svg width="10" height="10"></svg>''\<close>



definition dir_four :: listing where
  "dir_four = [(''a.svg'', Some icon_10), (''b.svg'', Some icon_10),
               (''c.svg'', Some icon_10), (''d.svg'', Some icon_10)]"

definition dir_no_svg :: listing where
  "dir_no_svg = [(''logo.png'', Some ''PNG''), (''svg'', None)]"



section \<open>Notions used in the statements\<close>

text \<open>The character \<open>x\<close> occurs in \<open>s\<close> behind the last double quote of \<open>s\<close>.\<close>

definition closes :: "char \<Rightarrow> string \<Rightarrow> bool" where
  "closes x s = (\<exists>a b. s = a @ x # b \<and> DQ \<notin> set b)"

section \<open>Well-formed tags\<close>

text \<open>
  The statements about the normalizer speak of markup that is written in the usual way:
  an attribute is a space, a name, \<^verbatim>\<open>=\<close> and a value in double quotes; between attributes
  there may be further text.
\<close>

datatype piece = Attr string string | Text string

fun render_piece :: "piece \<Rightarrow> string" where
  "render_piece (Attr n v) = CHR '' '' # n @ [CHR ''='', DQ] @ v @ [DQ]"
| "render_piece (Text t) = t"

definition render :: "piece list \<Rightarrow> string" where
  "render ps = concat (map render_piece ps)"

text \<open>
  A name has no white space and none of \<^verbatim>\<open>= " < >\<close>; a value has none of \<^verbatim>\<open>= " < >\<close>.
\<close>

definition wf_attr :: "string \<Rightarrow> string \<Rightarrow> bool" where
  \<open>wf_attr n v =
     (list_all (\<lambda>c. \<not> is_space c \<and> c \<notin> set ''="<>'') n \<and> list_all (\<lambda>c. c \<notin> set ''="<>'') v)\<close>

text \<open>Inside a start tag the text between attributes is white space.\<close>

fun wf_tag_piece :: "piece \<Rightarrow> bool" where
  "wf_tag_piece (Attr n v) = wf_attr n v"
| "wf_tag_piece (Text t) = list_all is_space t"

text \<open>Behind the start tag the text between attributes has no double quote.\<close>

fun wf_body_piece :: "piece \<Rightarrow> bool" where
  "wf_body_piece (Attr n v) = wf_attr n v"
| "wf_body_piece (Text t) = (DQ \<notin> set t)"

text \<open>
  The attributes that lines 98 to 108 remove from the start tag: the two namespace
  declarations (with the dots of the patterns standing for any character but a newline),
  and \<^verbatim>\<open>id\<close>, \<^verbatim>\<open>version\<close>, \<^verbatim>\<open>x\<close>, \<^verbatim>\<open>y\<close>, \<^verbatim>\<open>enable-background\<close> and \<^verbatim>\<open>xml:space\<close> with a
  value that is not empty.
\<close>

fun stripped :: "piece \<Rightarrow> bool" where
  "stripped (Text t) = False"
| "stripped (Attr n v) =
     (n = ''xmlns'' \<and> length v = 26 \<and> match_chars ''http://www.w3.org/2000/svg'' v
      \<or> n = ''xmlns:xlink'' \<and> length v = 28 \<and> match_chars ''http://www.w3.org/1999/xlink'' v
      \<or> v \<noteq> [] \<and> n \<in> set [''id'', ''version'', ''x'', ''y'', ''enable-background'',
                           ''xml:space''])"

text \<open>The attribute \<open>name\<close> with a value that is not empty.\<close>

fun is_attr :: "string \<Rightarrow> piece \<Rightarrow> bool" where
  "is_attr name (Text t) = False"
| "is_attr name (Attr n v) = (n = name \<and> v \<noteq> [])"


text \<open>
  A pattern for an attribute value in which every dot is followed by a character that can
  not begin what follows an attribute (white space, \<^verbatim>\<open>/\<close> or \<^verbatim>\<open>>\<close>).
\<close>

fun dots_ok :: "string \<Rightarrow> bool" where
  "dots_ok [] = True"
| "dots_ok [p] = (p \<noteq> DQ)"
| "dots_ok (p # q # r) =
     (p \<noteq> DQ \<and> (p = CHR ''.'' \<longrightarrow> q \<noteq> CHR ''.'' \<and> \<not> is_space q \<and> q \<noteq> CHR ''>'' \<and> q \<noteq> CHR ''/'')
      \<and> dots_ok (q # r))"

text \<open>What can follow an attribute inside a start tag.\<close>

definition follows_attr :: "string \<Rightarrow> bool" where
  "follows_attr F = (F \<noteq> [] \<and> (is_space (hd F) \<or> hd F = CHR ''>'' \<or> hd F = CHR ''/''))"




section \<open>Icon files of a given size\<close>



section \<open>An example icon file\<close>

definition ex_pre :: string where
  \<open>ex_pre = ''<?xml version="1.0"?>'' @ [NL]\<close>

definition ex_tag :: "piece list" where
  \<open>ex_tag = [Attr ''version'' ''1.1'', Attr ''id'' ''Layer_1'',
             Attr ''xmlns'' ''http://www.w3.org/2000/svg'',
             Attr ''xmlns:xlink'' ''http://www.w3.org/1999/xlink'',
             Attr ''x'' ''0px'', Attr ''y'' ''0px'', Text [NL, CHR 0x09],
             Attr ''width'' ''24px'', Attr ''height'' ''24px'',
             Attr ''viewBox'' ''0 0 24 24'',
             Attr ''enable-background'' ''new 0 0 24 24'', Attr ''xml:space'' ''preserve'']\<close>

definition ex_body :: "piece list" where
  \<open>ex_body = [Text ([NL] @ ''<g>'' @ [NL] @ ''</g>'' @ [NL] @ ''<path''),
              Attr ''fill'' ''#000000'', Attr ''d'' ''M0 0h24v24z'',
              Text (''></path>'' @ [NL] @ ''</svg>'' @ [NL])]\<close>

definition ex_markup :: string where
  "ex_markup = ex_pre @ ''<svg'' @ render ex_tag @ ''>'' @ render ex_body"

definition ex_clean :: string where
  \<open>ex_clean = ''  <svg id="back"'' @ [NL, CHR 0x09]
     @ '' width="24px" height="24px" viewBox="0 0 24 24">'' @ [NL]
     @ ''    <path d="M0 0h24v24z"/>'' @ [NL] @ ''  </svg>'' @ [NL]\<close>

section \<open>The dimension check and the outcome of a run\<close>







lemma dimensions_dir_mixed:
  \<open>icons_dimensions_of
     [''  <svg id="a" width="24" height="24">'' @ [NL]
        @ ''    <path d="M0 0"/>  </svg>'' @ [NL],
      ''  <svg id="b" width="32px" height="32px">'' @ [NL]
        @ ''    <path d="M1 1"/>  </svg>'' @ [NL]] = Inr [(24, 24), (32, 32)]\<close>
  by code_simp


lemma dimensions_dir_uniform:
  \<open>icons_dimensions_of
     [''  <svg id="a" width="24" height="24">'' @ [NL]
        @ ''    <path d="M0 0"/>  </svg>'' @ [NL],
      ''  <svg id="b" width="24" height="24">'' @ [NL]
        @ ''    <path d="M0 0"/>  </svg>'' @ [NL]] = Inr [(24, 24), (24, 24)]\<close>
  by code_simp

section \<open>The grid layout\<close>

lemma grid_icon_ok:
  \<open>grid_icon cols w h i (''  <svg'' @ r) =
     Inr (''  <svg x="'' @ py_str (padding + int (i mod cols) * w)
          @ ''" y="'' @ py_str (padding + int (i div cols) * h) @ [DQ] @ r)\<close>
  by (simp add: grid_icon_def Let_def)

text \<open>
  C2. In grid mode, four icons of 10 by 10 give two columns and two rows. Line 188 places
  the icon at index \<open>i\<close> at \<open>x = padding + col * icon_width\<close> and line 189 at
  \<open>y = padding + row * icon_height\<close>, with \<open>col = i mod cols\<close> and \<open>row = i div cols\<close>: the
  padding is added once and not per cell. So the icon at index 1 receives
  \<^verbatim>\<open>x="15" y="5"\<close> and begins where the icon at index 0 ends (5 to 15), the four icons
  sit at (5, 5), (15, 5), (5, 15) and (15, 15), and no icon of the run receives
  \<^verbatim>\<open>x="25"\<close>. The comment at line 178 gives the padding as the room around each icon,
  and line 180 reserves \<open>icon_width * cols + padding * (cols + 1)\<close> for a row.
\<close>

theorem grid_icons_without_room_between:
  \<open>grid_icon cols w h i (''  <svg'' @ r) =
     Inr (''  <svg x="'' @ py_str (padding + int (i mod cols) * w)
          @ ''" y="'' @ py_str (padding + int (i div cols) * h) @ [DQ] @ r)
   \<and> padding = 5 \<and> grid_cols 4 = 2 \<and> grid_rows 4 (grid_cols 4) = Inr 2
   \<and> document (main True [] ''./images'' None (Some dir_four) True) =
       provenance @ ''<svg xmlns="http://www.w3.org/2000/svg" fill="blue">'' @ [NL]
       @ ''  <svg x="5" y="5" id="a" width="10" height="10">'' @ [NL] @ ''  </svg>'' @ [NL]
       @ ''  <svg x="15" y="5" id="b" width="10" height="10">'' @ [NL] @ ''  </svg>'' @ [NL]
       @ ''  <svg x="5" y="15" id="c" width="10" height="10">'' @ [NL] @ ''  </svg>'' @ [NL]
       @ ''  <svg x="15" y="15" id="d" width="10" height="10">'' @ [NL] @ ''  </svg>'' @ [NL]
       @ ''</svg>'' @ [NL]
   \<and> \<not> contains '' x="25"'' (document (main True [] ''./images'' None (Some dir_four) True))\<close>
proof -
  have p: "padding = 5" by (simp add: padding_def)
  have c: "grid_cols 4 = 2" by code_simp
  have r: "grid_rows 4 (grid_cols 4) = Inr 2" by code_simp
  have d: \<open>document (main True [] ''./images'' None (Some dir_four) True) =
       provenance @ ''<svg xmlns="http://www.w3.org/2000/svg" fill="blue">'' @ [NL]
       @ ''  <svg x="5" y="5" id="a" width="10" height="10">'' @ [NL] @ ''  </svg>'' @ [NL]
       @ ''  <svg x="15" y="5" id="b" width="10" height="10">'' @ [NL] @ ''  </svg>'' @ [NL]
       @ ''  <svg x="5" y="15" id="c" width="10" height="10">'' @ [NL] @ ''  </svg>'' @ [NL]
       @ ''  <svg x="15" y="15" id="d" width="10" height="10">'' @ [NL] @ ''  </svg>'' @ [NL]
       @ ''</svg>'' @ [NL]\<close>
    by code_simp
  have n: \<open>\<not> contains '' x="25"''
             (document (main True [] ''./images'' None (Some dir_four) True))\<close>
    by code_simp
  from grid_icon_ok p c r d n show ?thesis by blast
qed

section \<open>Runs of the script\<close>

text \<open>
  C7. When the directory exists and no entry's name ends in \<^verbatim>\<open>.svg\<close>, the run writes
  the error line to standard error and exits with status 1; nothing is written to
  standard output and the output file is never opened.
\<close>

theorem no_svg_files_exit_1:
  assumes "filter (\<lambda>(n, content). svg_suffix n) entries = []"
  shows "main g usage iconsdir_path iconset_path (Some entries) writable =
     \<lparr>err_text = ''Error: No .svg icon files found in directory: '' @ iconsdir_path @ [NL],
      out_text = [], file_text = None, exit_status = Exit 1\<rparr>"
  using assms by (simp add: main_def failed_def)

theorem no_svg_files_exit_1_witness:
  "filter (\<lambda>(n, content). svg_suffix n) dir_no_svg = []
   \<and> main False [] ''icons'' (Some ''set.svg'') (Some dir_no_svg) True =
     \<lparr>err_text = ''Error: No .svg icon files found in directory: icons'' @ [NL],
      out_text = [], file_text = None, exit_status = Exit 1\<rparr>"
proof -
  have h: "filter (\<lambda>(n, content). svg_suffix n) dir_no_svg = []"
    by code_simp
  show ?thesis
    using h no_svg_files_exit_1 [OF h, of False "[]" "''icons''" "Some ''set.svg''" True]
    by simp
qed

text \<open>
  C8. The icon name is \<^verbatim>\<open>icon.replace(".svg", "")\<close>, which removes every occurrence of
  \<^verbatim>\<open>.svg\<close> and not only the extension: the files \<^verbatim>\<open>a.svg\<close> and \<^verbatim>\<open>a.svg.svg\<close> both
  receive the id \<^verbatim>\<open>a\<close>, and \<^verbatim>\<open>x.svgz.svg\<close> receives \<^verbatim>\<open>xz\<close>.
\<close>

theorem icon_id_removes_every_svg:
  \<open>load_icons [(''a.svg'', Some icon_10), (''a.svg.svg'', Some icon_10),
               (''x.svgz.svg'', Some icon_10)] =
     Inr [''  <svg id="a" width="10" height="10">'' @ [NL] @ ''  </svg>'' @ [NL],
          ''  <svg id="a" width="10" height="10">'' @ [NL] @ ''  </svg>'' @ [NL],
          ''  <svg id="xz" width="10" height="10">'' @ [NL] @ ''  </svg>'' @ [NL]]\<close>
  by code_simp

section \<open>The start tag keeps its opening\<close>

lemma find_sub_prefix: "find_sub sub s = Some i \<Longrightarrow> prefix sub (drop i s)"
  by (induction s arbitrary: i) (auto split: if_splits)

lemma find_sub_least: "find_sub sub s = Some i \<Longrightarrow> j < i \<Longrightarrow> \<not> prefix sub (drop j s)"
proof (induction s arbitrary: i j)
  case Nil
  then show ?case by (auto split: if_splits)
next
  case (Cons c cs)
  then show ?case by (cases j) (auto split: if_splits)
qed

lemma find_sub_le: "find_sub sub s = Some i \<Longrightarrow> i + length sub \<le> length s"
  by (induction s arbitrary: i) (auto split: if_splits dest: prefix_length_le)

lemma re_sub_skip:
  assumes "\<And>c t. c \<in> set p \<Longrightarrow> m (c # t) = None"
  shows "re_sub m repl (p @ s) = p @ re_sub m repl s"
  using assms by (induction p) auto

lemma re_attr_space: "re_attr name (c # t) = Some k \<Longrightarrow> c = CHR '' ''"
  by (auto simp: re_attr_def re_attr_group_def Let_def split: if_splits)

lemma re_attr_not_space: "c \<noteq> CHR '' '' \<Longrightarrow> re_attr name (c # t) = None"
  using re_attr_space by (cases "re_attr name (c # t)") auto

lemma xmlns_not_space: "c \<noteq> CHR '' '' \<Longrightarrow> xmlns_re (c # t) = None"
  by (simp add: xmlns_re_def re_chars_def)

lemma xlink_not_space: "c \<noteq> CHR '' '' \<Longrightarrow> xlink_re (c # t) = None"
  by (simp add: xlink_re_def re_chars_def)

lemmas start_tag_res_not_space =
  xmlns_not_space xlink_not_space
  re_attr_not_space [of _ "''id''", folded id_re_def]
  re_attr_not_space [of _ "''version''", folded version_re_def]
  re_attr_not_space [of _ "''x''", folded x_re_def]
  re_attr_not_space [of _ "''y''", folded y_re_def]
  re_attr_not_space [of _ "''enable-background''", folded enable_background_re_def]
  re_attr_not_space [of _ "''xml:space''", folded xml_space_re_def]

lemma re_sub_keeps_svg:
  assumes "\<And>c t. c \<noteq> CHR '' '' \<Longrightarrow> m (c # t) = None"
  shows "re_sub m repl (''<svg'' @ t) = ''<svg'' @ re_sub m repl t"
  by (rule re_sub_skip) (auto intro: assms)

lemma start_tag_subs_keep_svg:
  "re_sub xmlns_re repl (''<svg'' @ t) = ''<svg'' @ re_sub xmlns_re repl t"
  "re_sub xlink_re repl (''<svg'' @ t) = ''<svg'' @ re_sub xlink_re repl t"
  "re_sub id_re repl (''<svg'' @ t) = ''<svg'' @ re_sub id_re repl t"
  "re_sub version_re repl (''<svg'' @ t) = ''<svg'' @ re_sub version_re repl t"
  "re_sub x_re repl (''<svg'' @ t) = ''<svg'' @ re_sub x_re repl t"
  "re_sub y_re repl (''<svg'' @ t) = ''<svg'' @ re_sub y_re repl t"
  "re_sub enable_background_re repl (''<svg'' @ t) =
     ''<svg'' @ re_sub enable_background_re repl t"
  "re_sub xml_space_re repl (''<svg'' @ t) = ''<svg'' @ re_sub xml_space_re repl t"
  by (rule re_sub_keeps_svg, erule start_tag_res_not_space)+

lemma py_replace_at_match:
  "py_replace (c # old) new ((c # old) @ u) = new @ py_replace (c # old) new u"
  by (simp add: py_replace_def)

lemma clean_start_tag_prefix:
  \<open>prefix (''  <svg id="'' @ icon_name @ [DQ]) (clean_start_tag (''<svg'' @ t) icon_name)\<close>
  unfolding clean_start_tag_def Let_def
  by (simp only: start_tag_subs_keep_svg py_replace_at_match) simp

lemma start_tag_shape:
  assumes a: "py_index markup ''<svg '' 0 = Inr a"
    and i: "py_index markup ''>'' (a + 1) = Inr i"
  shows "\<exists>t. py_slice markup a (i + 1) = ''<svg'' @ t"
proof -
  from a have fa: "find_sub ''<svg '' markup = Some a"
    by (auto simp: py_index_def split: option.splits)
  then have p: "prefix ''<svg '' (drop a markup)" by (rule find_sub_prefix)
  then obtain r where r: "drop a markup = ''<svg '' @ r" by (auto simp: prefix_def)
  from i obtain j where j: "find_sub ''>'' (drop (a + 1) markup) = Some j" and ij: "i = a + 1 + j"
    by (auto simp: py_index_def split: option.splits)
  have d: "drop (a + 1) markup = ''svg '' @ r"
    using r by (metis (no_types) add.commute drop_drop append_Cons drop_Suc_Cons drop0 plus_1_eq_Suc)
  have "j \<ge> 4"
  proof (rule ccontr)
    assume "\<not> 4 \<le> j"
    then have "j = 0 \<or> j = 1 \<or> j = 2 \<or> j = 3" by arith
    with find_sub_prefix [OF j] show False
      unfolding d by (auto simp: numeral_2_eq_2 numeral_3_eq_3)
  qed
  then have "i + 1 - a \<ge> 4" using ij by simp
  then obtain n where n: "i + 1 - a = 4 + n" by (metis le_Suc_ex)
  have "py_slice markup a (i + 1) = ''<svg'' @ take n ('' '' @ r)"
    unfolding py_slice_def n r by (simp add: numeral_eq_Suc)
  then show ?thesis by blast
qed

lemma clean_markup_prefix:
  assumes "clean_markup markup icon_name = Inr r"
  shows \<open>prefix (''  <svg id="'' @ icon_name @ [DQ]) r\<close>
proof -
  from assms obtain a i rest where a: "py_index markup ''<svg '' 0 = Inr a"
    and i: "py_index markup ''>'' (a + 1) = Inr i"
    and r: "r = clean_start_tag (py_slice markup a (i + 1)) icon_name @ rest"
    by (auto simp: clean_markup_def Let_def split: sum.splits)
  from start_tag_shape [OF a i] obtain t where "py_slice markup a (i + 1) = ''<svg'' @ t" ..
  with r clean_start_tag_prefix [of icon_name t] show ?thesis
    by (metis prefix_prefix)
qed

section \<open>Substitution by scanning\<close>

lemma re_sub_match:
  "m (c # cs) = Some (Suc k) \<Longrightarrow> re_sub m repl (c # cs) = repl @ re_sub m repl (drop k cs)"
  by simp

lemma re_sub_step:
  "\<forall>k. m (c # cs) \<noteq> Some (Suc k) \<Longrightarrow> re_sub m repl (c # cs) = c # re_sub m repl cs"
  by (auto split: option.splits nat.splits)

declare re_sub.simps(2) [simp del]

lemma re_sub_induct [case_names Nil Match Step]:
  assumes "P []"
    and "\<And>c cs k. m (c # cs) = Some (Suc k) \<Longrightarrow> P (drop k cs) \<Longrightarrow> P (c # cs)"
    and "\<And>c cs. \<forall>k. m (c # cs) \<noteq> Some (Suc k) \<Longrightarrow> P cs \<Longrightarrow> P (c # cs)"
  shows "P s"
proof (induction s rule: length_induct)
  case (1 s)
  show ?case
  proof (cases s)
    case Nil
    with assms(1) show ?thesis by simp
  next
    case (Cons c cs)
    show ?thesis
    proof (cases "\<exists>k. m (c # cs) = Some (Suc k)")
      case True
      then obtain k where k: "m (c # cs) = Some (Suc k)" ..
      have "P (drop k cs)" using 1 Cons by simp
      with k Cons assms(2) show ?thesis by blast
    next
      case False
      have "P cs" using 1 Cons by simp
      with False Cons assms(3) show ?thesis by blast
    qed
  qed
qed

lemma set_re_sub_del: "set (re_sub m [] s) \<subseteq> set s"
proof (induction s rule: re_sub_induct [where m = m])
  case Nil
  show ?case by simp
next
  case (Match c cs k)
  then show ?case using set_drop_subset [of k cs] by (auto simp: re_sub_match)
next
  case (Step c cs)
  then show ?case by (auto simp: re_sub_step)
qed

lemma re_sub_not_empty: "s \<noteq> [] \<Longrightarrow> repl \<noteq> [] \<Longrightarrow> re_sub m repl s \<noteq> []"
  by (cases s) (auto simp: re_sub.simps split: option.splits nat.splits)

lemma svg_open_tag_sub_not_empty: "s \<noteq> [] \<Longrightarrow> repl \<noteq> [] \<Longrightarrow> svg_open_tag_sub repl s \<noteq> []"
  by (simp add: svg_open_tag_sub_def Let_def)

lemma closes_drop:
  assumes "closes x s" and "x \<notin> set (take n s)"
  shows "closes x (drop n s)"
proof -
  from assms(1) obtain a b where s: "s = a @ x # b" and b: "DQ \<notin> set b"
    by (auto simp: closes_def)
  have "n \<le> length a"
  proof (rule ccontr)
    assume "\<not> n \<le> length a"
    then have "take n s = a @ x # take (n - Suc (length a)) b"
      by (simp add: s take_Cons') 
    with assms(2) show False by simp
  qed
  then have "drop n s = drop n a @ x # b" by (simp add: s)
  with b show ?thesis by (auto simp: closes_def)
qed

lemma closes_Cons: "closes x s \<Longrightarrow> closes x (c # s)"
  by (metis append_Cons closes_def)

lemma closes_uncons: "closes x (c # s) \<Longrightarrow> closes x s \<or> (c = x \<and> DQ \<notin> set s)"
  by (auto simp: closes_def Cons_eq_append_conv)

lemma closes_re_sub_del:
  assumes m: "\<And>t k. m t = Some k \<Longrightarrow> x \<notin> set (take k t)"
  shows "closes x s \<Longrightarrow> closes x (re_sub m [] s)"
proof (induction s rule: re_sub_induct [where m = m])
  case Nil
  then show ?case by simp
next
  case (Match c cs k)
  from m [OF Match(1)] Match(3) have "closes x (drop (Suc k) (c # cs))"
    by (rule closes_drop [rotated])
  with Match show ?case by (simp add: re_sub_match)
next
  case (Step c cs)
  from closes_uncons [OF Step(3)] show ?case
  proof
    assume "closes x cs"
    with Step show ?thesis by (simp add: re_sub_step closes_Cons)
  next
    assume a: "c = x \<and> DQ \<notin> set cs"
    then have "DQ \<notin> set (re_sub m [] cs)" using set_re_sub_del [of m cs] by blast
    with a have "closes x (c # re_sub m [] cs)"
      unfolding closes_def by blast
    with Step show ?thesis by (simp add: re_sub_step)
  qed
qed

lemma closes_not_empty_after_del:
  assumes m: "\<And>t k. m t = Some (Suc k) \<Longrightarrow> k < length t \<and> t ! k = DQ"
    and x: "x \<noteq> DQ"
  shows "closes x s \<Longrightarrow> re_sub m [] s \<noteq> []"
proof (induction s rule: re_sub_induct [where m = m])
  case Nil
  then show ?case by (simp add: closes_def)
next
  case (Match c cs k)
  from m [OF Match(1)] have k: "k < length (c # cs)" "(c # cs) ! k = DQ" by simp_all
  from Match(3) obtain a b where s: "c # cs = a @ x # b" and b: "DQ \<notin> set b"
    by (auto simp: closes_def)
  have "k < length a"
  proof (rule ccontr)
    assume "\<not> k < length a"
    then have ge: "length a \<le> k" by simp
    then have "(a @ x # b) ! k = (x # b) ! (k - length a)"
      by (simp add: nth_append)
    moreover have "k - length a < length (x # b)"
      using k(1) ge unfolding s by simp
    ultimately have "(a @ x # b) ! k \<in> set (x # b)"
      by (metis nth_mem)
    with k(2) x b show False unfolding s by auto
  qed
  then have "drop (Suc k) (c # cs) = drop (Suc k) a @ x # b"
    unfolding s by simp
  with b have "closes x (drop k cs)" by (auto simp: closes_def)
  with Match show ?case by (simp add: re_sub_match)
next
  case (Step c cs)
  then show ?case by (simp add: re_sub_step)
qed

section \<open>When the normalizer returns\<close>

lemma re_attr_ends_with_quote:
  assumes "re_attr name t = Some (Suc k)"
  shows "k < length t \<and> t ! k = DQ"
proof -
  let ?lit = "CHR '' '' # name @ [CHR ''='', DQ]"
  let ?r = "drop (length ?lit) t"
  let ?v = "takeWhile (\<lambda>c. c \<noteq> DQ) ?r"
  from assms have p: "prefix ?lit t" and v: "length ?v < length ?r"
    and k: "Suc k = length ?lit + length ?v + 1"
    by (auto simp: re_attr_def re_attr_group_def Let_def split: if_splits)
  from p have len: "length ?lit \<le> length t" by (rule prefix_length_le)
  from v have "?r ! length ?v = DQ"
    using nth_length_takeWhile [of "\<lambda>c. c \<noteq> DQ" ?r] by simp
  moreover have "?r ! length ?v = t ! (length ?lit + length ?v)"
    using len v by (simp add: nth_drop del: length_Cons length_append)
  moreover have "k = length ?lit + length ?v" using k by simp
  moreover have "length ?lit + length ?v < length t" using v len by simp
  ultimately show ?thesis by simp
qed

lemma empty_g_re_chars:
  assumes "empty_g_re t = Some k"
  shows "set (take k t) \<subseteq> set ''<g>/'' \<union> {c. is_space c}"
proof -
  let ?r1 = "drop 3 t"
  let ?w1 = "takeWhile is_space ?r1"
  let ?r2 = "drop (length ?w1) ?r1"
  let ?w2 = "takeWhile is_space (drop 4 ?r2)"
  let ?u = "rev (dropWhile (\<lambda>c. c \<noteq> NL) (rev ?w2))"
  from assms have p1: "prefix ''<g>'' t" and p2: "prefix ''</g>'' ?r2"
    and k: "k = 3 + length ?w1 + 4 + length ?u"
    by (auto simp: empty_g_re_def Let_def split: if_splits)
  from p1 obtain r1 where t: "t = ''<g>'' @ r1" by (auto simp: prefix_def)
  then have r1: "?r1 = r1" by simp
  have r1': "r1 = takeWhile is_space r1 @ dropWhile is_space r1" by simp
  have r2: "?r2 = dropWhile is_space r1" unfolding r1 by (simp add: dropWhile_eq_drop)
  from p2 obtain r3 where r3: "dropWhile is_space r1 = ''</g>'' @ r3"
    unfolding r2 by (auto simp: prefix_def)
  have w2: "?w2 = takeWhile is_space r3" unfolding r2 r3 by simp
  have "prefix ?u ?w2"
    by (metis (no_types) append_take_drop_id dropWhile_eq_drop prefixI rev_append rev_rev_ident rev_swap)
  then obtain u' where u': "takeWhile is_space r3 = ?u @ u'"
    unfolding w2 by (auto simp: prefix_def)
  have su: "set ?u \<subseteq> {c. is_space c}"
    using set_takeWhileD [of _ is_space r3] u' unfolding w2
    by (metis (no_types, lifting) Un_iff mem_Collect_eq set_append subsetI)
  define A where "A = ''<g>'' @ takeWhile is_space r1 @ ''</g>'' @ ?u"
  have tt: "t = A @ u' @ dropWhile is_space r3"
    unfolding A_def using t r1' r3 u' by (metis append.assoc takeWhile_dropWhile_id)
  have "k = length A" unfolding k A_def r1 by simp
  with tt have "take k t = A" by simp
  then have "take k t = ''<g>'' @ takeWhile is_space r1 @ ''</g>'' @ ?u"
    by (simp only: A_def)
  with su show ?thesis
    using set_takeWhileD [of _ is_space r1] by auto
qed

lemma empty_g_re_no_v: "empty_g_re t = Some k \<Longrightarrow> CHR ''v'' \<notin> set (take k t)"
  using empty_g_re_chars [of t k] by (auto simp: is_space_def)

lemma closes_svg_close_tag: "DQ \<notin> set v \<Longrightarrow> closes (CHR ''v'') (u @ ''</svg>'' @ v)"
  unfolding closes_def
  by (rule exI [of _ "u @ ''</s''"], rule exI [of _ "''g>'' @ v"]) simp

lemma clean_the_rest_not_empty:
  assumes "closes (CHR ''v'') the_rest"
  shows "clean_the_rest the_rest \<noteq> []"
proof -
  from assms have "closes (CHR ''v'') (re_sub empty_g_re [] the_rest)"
    by (rule closes_re_sub_del [rotated]) (rule empty_g_re_no_v)
  then have "re_sub fill_re [] (re_sub empty_g_re [] the_rest) \<noteq> []"
    by (rule closes_not_empty_after_del [rotated 2])
       (simp_all add: fill_re_def re_attr_ends_with_quote)
  then show ?thesis
    by (simp add: clean_the_rest_def Let_def re_sub_not_empty svg_open_tag_sub_not_empty)
qed

lemma clean_the_rest_Nil: "clean_the_rest [] = []"
  by (simp add: clean_the_rest_def svg_open_tag_sub_def)

text \<open>
  C9 (as amended). Let \<open>a\<close> be the index of the root start tag and \<open>i\<close> the index of
  its closing \<^verbatim>\<open>>\<close>. When the markup ends there, \<^verbatim>\<open>the_rest[0]\<close> raises IndexError. When
  \<^verbatim>\<open></svg>\<close> follows the start tag and no double quote comes behind it, the normalizer
  returns a result.
\<close>

theorem the_rest_index_error:
  assumes "py_index markup ''<svg '' 0 = Inr a"
    and "py_index markup ''>'' (a + 1) = Inr i"
  shows "(drop (i + 1) markup = [] \<longrightarrow> clean_markup markup icon_name = Inl IndexError)
       \<and> (\<forall>u v. drop (i + 1) markup = u @ ''</svg>'' @ v \<and> DQ \<notin> set v \<longrightarrow>
            (\<exists>r. clean_markup markup icon_name = Inr r))"
proof (intro conjI allI impI)
  assume "drop (i + 1) markup = []"
  with assms show "clean_markup markup icon_name = Inl IndexError"
    by (simp add: clean_markup_def Let_def clean_the_rest_Nil ensure_newlines_def)
next
  fix u v
  assume "drop (i + 1) markup = u @ ''</svg>'' @ v \<and> DQ \<notin> set v"
  then have "clean_the_rest (drop (i + 1) markup) \<noteq> []"
    using clean_the_rest_not_empty closes_svg_close_tag by metis
  then obtain r where "ensure_newlines (clean_the_rest (drop (i + 1) markup)) = Inr r"
    by (cases "clean_the_rest (drop (i + 1) markup)") (auto simp: ensure_newlines_def Let_def)
  with assms show "\<exists>r. clean_markup markup icon_name = Inr r"
    by (simp add: clean_markup_def Let_def)
qed

theorem the_rest_index_error_witness:
  \<open>py_index icon_24 ''<svg '' 0 = Inr 0
   \<and> py_index icon_24 ''>'' (0 + 1) = Inr 27
   \<and> drop (27 + 1) icon_24 = ''<path d="M0 0"/>'' @ ''</svg>'' @ []
   \<and> (\<exists>r. clean_markup icon_24 ''a'' = Inr r)
   \<and> py_index ''<svg width="24" height="24"/>'' ''>'' (0 + 1) = Inr 28
   \<and> clean_markup ''<svg width="24" height="24"/>'' ''a'' = Inl IndexError\<close>
proof -
  have a: "py_index icon_24 ''<svg '' 0 = Inr 0" by code_simp
  have i: "py_index icon_24 ''>'' (0 + 1) = Inr 27" by code_simp
  have d: \<open>drop (27 + 1) icon_24 = ''<path d="M0 0"/>'' @ ''</svg>'' @ []\<close> by code_simp
  have q: "DQ \<notin> set []" by simp
  have a': \<open>py_index ''<svg width="24" height="24"/>'' ''<svg '' 0 = Inr 0\<close> by code_simp
  have i': \<open>py_index ''<svg width="24" height="24"/>'' ''>'' (0 + 1) = Inr 28\<close> by code_simp
  have d': \<open>drop (28 + 1) ''<svg width="24" height="24"/>'' = []\<close> by simp
  from the_rest_index_error [OF a i, of "''a''"] d q
  have "\<exists>r. clean_markup icon_24 ''a'' = Inr r" by blast
  moreover from the_rest_index_error [OF a' i', of "''a''"] d'
  have \<open>clean_markup ''<svg width="24" height="24"/>'' ''a'' = Inl IndexError\<close> by blast
  ultimately show ?thesis using a i d i' by blast
qed

text \<open>
  C9 as stated fails: here \<^verbatim>\<open></svg>\<close> follows the start tag, inside what \<^verbatim>\<open>fill_re\<close>
  removes, and \<^verbatim>\<open>the_rest[0]\<close> raises IndexError.
\<close>

theorem closing_tag_removed_counterexample:
  \<open>py_index ''<svg width="1" height="1"> fill="</svg>"'' ''<svg '' 0 = Inr 0
   \<and> py_index ''<svg width="1" height="1"> fill="</svg>"'' ''>'' (0 + 1) = Inr 25
   \<and> drop (25 + 1) ''<svg width="1" height="1"> fill="</svg>"'' = '' fill="'' @ ''</svg>'' @ [DQ]
   \<and> clean_markup ''<svg width="1" height="1"> fill="</svg>"'' ''a'' = Inl IndexError\<close>
  by code_simp

section \<open>The grid assertion\<close>

lemma prefix_take_6:
  \<open>prefix (''  <svg id="'' @ n) r \<Longrightarrow> take 6 r = ''  <svg''\<close>
proof -
  assume \<open>prefix (''  <svg id="'' @ n) r\<close>
  then obtain z where \<open>r = (''  <svg id="'' @ n) @ z\<close>
    unfolding prefix_def by blast
  then show ?thesis by simp
qed

lemma load_icons_prefix:
  \<open>load_icons icons = Inr ms \<Longrightarrow> m \<in> set ms \<Longrightarrow> take 6 m = ''  <svg''\<close>
proof (induction icons arbitrary: ms)
  case Nil
  then show ?case by simp
next
  case (Cons e icons)
  obtain icon content where e: "e = (icon, content)" by (cases e)
  from Cons.prems(1) obtain markup m0 ms0 where
    c: "clean_markup markup (icon_name_of icon) = Inr m0"
    and l: "load_icons icons = Inr ms0" and ms: "ms = m0 # ms0"
    unfolding e by (auto split: option.splits sum.splits)
  from clean_markup_prefix [OF c] have "take 6 m0 = ''  <svg''"
    by (rule prefix_take_6)
  with Cons.IH [OF l] Cons.prems(2) ms show ?case by auto
qed

lemma grid_loop_ok:
  \<open>\<forall>m\<in>set ms. take 6 m = ''  <svg'' \<Longrightarrow> \<exists>out. grid_loop cols w h i ms acc = Inr out\<close>
proof (induction ms arbitrary: i acc)
  case Nil
  then show ?case by simp
next
  case (Cons m ms)
  then obtain m' where "grid_icon cols w h i m = Inr m'"
    by (simp add: grid_icon_def Let_def)
  moreover from Cons have "\<exists>out. grid_loop cols w h (Suc i) ms (acc @ m') = Inr out"
    by simp
  ultimately show ?case by simp
qed

lemma ceil_sqrt_from_ge: "n \<le> ceil_sqrt_from n c * ceil_sqrt_from n c"
proof (induction n c rule: ceil_sqrt_from.induct)
  case (1 n c)
  then show ?case by (subst (1 2) ceil_sqrt_from.simps) simp
qed

lemma grid_cols_pos: "0 < n \<Longrightarrow> 0 < grid_cols n"
  using ceil_sqrt_from_ge [of n 0] by (cases "grid_cols n") (auto simp: grid_cols_def)

lemma grid_output_ok:
  assumes "\<forall>m\<in>set ms. take 6 m = ''  <svg''"
  shows "grid_output w h ms \<noteq> Inl AssertionError"
    and "ms \<noteq> [] \<Longrightarrow> \<exists>out. grid_output w h ms = Inr out"
proof -
  from grid_loop_ok [OF assms] obtain out where
    l: "grid_loop (grid_cols (length ms)) w h 0 ms
       (provenance @ ''<svg xmlns=\"http://www.w3.org/2000/svg\" fill=\"blue\">'' @ [NL]) = Inr out"
    by blast
  then show "grid_output w h ms \<noteq> Inl AssertionError"
    by (simp add: grid_output_def grid_rows_def Let_def)
  assume "ms \<noteq> []"
  then have "0 < grid_cols (length ms)" by (intro grid_cols_pos) simp
  with l show "\<exists>out. grid_output w h ms = Inr out"
    by (simp add: grid_output_def grid_rows_def Let_def)
qed

text \<open>
  C10. Every string that \<^verbatim>\<open>clean_markup\<close> returns begins with two spaces, \<^verbatim>\<open><svg\<close> and
  the inserted \<^verbatim>\<open>id\<close> attribute, so its first six characters are those the grid layout
  asserts. The grid layout of loaded icons never raises AssertionError, and it returns a
  document whenever there is an icon.
\<close>

theorem normalized_icon_prefix:
  \<open>(clean_markup markup icon_name = Inr r \<longrightarrow>
      prefix (''  <svg id="'' @ icon_name @ [DQ]) r \<and> take 6 r = ''  <svg'')
   \<and> (load_icons icons = Inr icons_markup \<longrightarrow>
      grid_output icon_width icon_height icons_markup \<noteq> Inl AssertionError
      \<and> (icons_markup \<noteq> [] \<longrightarrow>
           (\<exists>out. grid_output icon_width icon_height icons_markup = Inr out)))\<close>
proof (intro conjI impI)
  assume c: "clean_markup markup icon_name = Inr r"
  then show p: \<open>prefix (''  <svg id="'' @ icon_name @ [DQ]) r\<close>
    by (rule clean_markup_prefix)
  then show "take 6 r = ''  <svg''" by (rule prefix_take_6)
next
  assume "load_icons icons = Inr icons_markup"
  then have a: "\<forall>m\<in>set icons_markup. take 6 m = ''  <svg''"
    using load_icons_prefix by blast
  from grid_output_ok(1) [OF a]
  show "grid_output icon_width icon_height icons_markup \<noteq> Inl AssertionError" .
  assume "icons_markup \<noteq> []"
  with grid_output_ok(2) [OF a]
  show "\<exists>out. grid_output icon_width icon_height icons_markup = Inr out" .
qed

theorem normalized_icon_prefix_witness:
  \<open>clean_markup icon_10 ''a'' =
     Inr (''  <svg id="a" width="10" height="10">'' @ [NL] @ ''  </svg>'' @ [NL])
   \<and> prefix (''  <svg id="'' @ ''a'' @ [DQ])
       (''  <svg id="a" width="10" height="10">'' @ [NL] @ ''  </svg>'' @ [NL])
   \<and> load_icons dir_four =
       Inr [''  <svg id="a" width="10" height="10">'' @ [NL] @ ''  </svg>'' @ [NL],
            ''  <svg id="b" width="10" height="10">'' @ [NL] @ ''  </svg>'' @ [NL],
            ''  <svg id="c" width="10" height="10">'' @ [NL] @ ''  </svg>'' @ [NL],
            ''  <svg id="d" width="10" height="10">'' @ [NL] @ ''  </svg>'' @ [NL]]
   \<and> (\<exists>out. grid_output 10 10
         [''  <svg id="a" width="10" height="10">'' @ [NL] @ ''  </svg>'' @ [NL],
          ''  <svg id="b" width="10" height="10">'' @ [NL] @ ''  </svg>'' @ [NL],
          ''  <svg id="c" width="10" height="10">'' @ [NL] @ ''  </svg>'' @ [NL],
          ''  <svg id="d" width="10" height="10">'' @ [NL] @ ''  </svg>'' @ [NL]] = Inr out)\<close>
proof -
  let ?m = \<open>''  <svg id="a" width="10" height="10">'' @ [NL] @ ''  </svg>'' @ [NL]\<close>
  let ?ms = \<open>[''  <svg id="a" width="10" height="10">'' @ [NL] @ ''  </svg>'' @ [NL],
          ''  <svg id="b" width="10" height="10">'' @ [NL] @ ''  </svg>'' @ [NL],
          ''  <svg id="c" width="10" height="10">'' @ [NL] @ ''  </svg>'' @ [NL],
          ''  <svg id="d" width="10" height="10">'' @ [NL] @ ''  </svg>'' @ [NL]]\<close>
  have c: "clean_markup icon_10 ''a'' = Inr ?m" by code_simp
  have l: "load_icons dir_four = Inr ?ms" by code_simp
  have ne: "?ms \<noteq> []" by simp
  from normalized_icon_prefix [of icon_10 "''a''" ?m dir_four ?ms 10 10] c l ne
  have \<open>prefix (''  <svg id="'' @ ''a'' @ [DQ]) ?m\<close>
    and "\<exists>out. grid_output 10 10 ?ms = Inr out" by blast+
  with c l show ?thesis by blast
qed

section \<open>Attribute patterns on rendered pieces\<close>

lemma re_sub_skip_text:
  assumes "\<And>u. u \<noteq> [] \<Longrightarrow> suffix u t \<Longrightarrow> m (u @ s) = None"
  shows "re_sub m repl (t @ s) = t @ re_sub m repl s"
  using assms
proof (induction t)
  case Nil
  show ?case by simp
next
  case (Cons c t)
  have "m ((c # t) @ s) = None" by (rule Cons.prems) simp_all
  then have "re_sub m repl ((c # t) @ s) = c # re_sub m repl (t @ s)"
    by (simp add: re_sub_step)
  moreover have "re_sub m repl (t @ s) = t @ re_sub m repl s"
    by (rule Cons.IH) (auto intro: Cons.prems simp: suffix_Cons)
  ultimately show ?case by simp
qed

lemma render_simps [simp]:
  "render [] = []"
  "render (p # ps) = render_piece p @ render ps"
  "render (ps @ qs) = render ps @ render qs"
  by (simp_all add: render_def)

lemma re_attr_group_not_space: "c \<noteq> CHR '' '' \<Longrightarrow> re_attr_group name (c # s) = None"
  by (simp add: re_attr_group_def)

lemma prefix_name_eq:
  assumes "CHR ''='' \<notin> set name" "CHR ''='' \<notin> set n"
  shows "prefix (name @ CHR ''='' # x) (n @ CHR ''='' # y) \<longleftrightarrow> name = n \<and> prefix x y"
  using assms
proof (induction name arbitrary: n)
  case Nil
  then show ?case by (cases n) auto
next
  case (Cons a name)
  then show ?case by (cases n) auto
qed

lemma re_attr_group_attr:
  assumes "CHR ''='' \<notin> set n" "CHR ''='' \<notin> set name" "DQ \<notin> set v"
  shows "re_attr_group name (render_piece (Attr n v) @ F) =
           (if n = name \<and> v \<noteq> [] then Some (length (render_piece (Attr n v)), v) else None)"
proof -
  have p: "prefix (CHR '' '' # name @ [CHR ''='', DQ])
             (CHR '' '' # n @ [CHR ''='', DQ] @ v @ DQ # F) \<longleftrightarrow> name = n"
    using prefix_name_eq [OF assms(2,1), of "[DQ]" "DQ # v @ DQ # F"] by simp
  have t: "takeWhile (\<lambda>c. c \<noteq> DQ) (v @ DQ # F) = v"
    using assms(3) by (induction v) auto
  show ?thesis
    using p t by (auto simp: re_attr_group_def Let_def)
qed

lemma no_literal_in_value:
  assumes "DQ \<notin> set x" "DQ \<notin> set v" "CHR ''='' \<notin> set v"
  shows "\<not> prefix (x @ [CHR ''='', DQ]) (v @ DQ # F)"
  using assms
proof (induction x arbitrary: v)
  case Nil
  then show ?case by (cases v) auto
next
  case (Cons a x)
  then show ?case by (cases v) auto
qed

lemma re_attr_group_in_value:
  assumes "DQ \<notin> set name" "DQ \<notin> set v" "CHR ''='' \<notin> set v"
  shows "re_attr_group name (v @ DQ # F) = None"
  using no_literal_in_value [of "CHR '' '' # name" v F] assms
  by (simp add: re_attr_group_def)

lemma no_literal_before_attr:
  assumes "CHR '' '' \<notin> set x" "DQ \<notin> set u"
  shows "\<not> prefix (x @ [CHR ''='', DQ]) (u @ CHR '' '' # r)"
  using assms
proof (induction x arbitrary: u)
  case Nil
  show ?case
  proof (cases u)
    case Nil
    then show ?thesis by simp
  next
    case (Cons c u')
    with Nil.prems show ?thesis by (cases u') auto
  qed
next
  case (Cons a x)
  then show ?case by (cases u) auto
qed

lemma no_literal_in_text:
  assumes "DQ \<notin> set u"
  shows "\<not> prefix (x @ [CHR ''='', DQ]) u"
  using assms by (metis append_Cons append_Nil in_set_conv_decomp prefix_def set_mono_prefix subsetD list.set_intros(1) append.assoc)

lemma wf_attr_D:
  assumes "wf_attr n v"
  shows "CHR '' '' \<notin> set n" "CHR ''='' \<notin> set n" "DQ \<notin> set n" "CHR ''<'' \<notin> set n"
    "CHR ''>'' \<notin> set n"
    "DQ \<notin> set v" "CHR ''='' \<notin> set v" "CHR ''<'' \<notin> set v" "CHR ''>'' \<notin> set v"
    "\<And>c. c \<in> set n \<Longrightarrow> \<not> is_space c"
  using assms by (auto simp: wf_attr_def list_all_iff is_space_def)

lemma not_space_DQ: "\<not> is_space DQ"
  by (simp add: is_space_def)

lemma wf_tag_body: "wf_tag_piece p \<Longrightarrow> wf_body_piece p"
proof (cases p)
  case (Attr n v)
  then show "wf_tag_piece p \<Longrightarrow> wf_body_piece p" by simp
next
  case (Text t)
  then show "wf_tag_piece p \<Longrightarrow> wf_body_piece p"
    using not_space_DQ by (auto simp: list_all_iff)
qed

lemma literal_next_char:
  assumes "prefix (a # L) (u @ f # F)" "u \<noteq> []" "DQ \<notin> set u" "DQ \<in> set L"
  shows "f \<in> set L"
  using assms
proof (induction L arbitrary: a u)
  case Nil
  then show ?case by simp
next
  case (Cons b L)
  from Cons.prems(2) obtain c u' where u: "u = c # u'" by (cases u) auto
  show ?case
  proof (cases u')
    case Nil
    with Cons.prems(1) u show ?thesis by simp
  next
    case (Cons c' u'')
    with Cons.prems u have "prefix (b # L) (u' @ f # F)" "u' \<noteq> []" "DQ \<notin> set u'" "DQ \<in> set L"
      by auto
    from Cons.IH [OF this] show ?thesis by simp
  qed
qed

lemma re_attr_group_text:
  assumes "u \<noteq> []" "DQ \<notin> set u" "list_all wf_body_piece ps"
    and "CHR '' '' \<notin> set name" "DQ \<notin> set name"
    and "(\<exists>n v. Attr n v \<in> set ps) \<or> F = [] \<or> hd F \<notin> set (name @ [CHR ''='', DQ])"
  shows "re_attr_group name (u @ render ps @ F) = None"
proof -
  let ?L = "CHR '' '' # name @ [CHR ''='', DQ]"
  have "\<not> prefix ?L (u @ render ps @ F)"
    using assms(1-3,6)
  proof (induction ps arbitrary: u)
    case Nil
    show ?case
    proof (cases F)
      case Nil
      with no_literal_in_text [of u "CHR '' '' # name"] Nil.prems show ?thesis by simp
    next
      case (Cons f F')
      with Nil.prems(4) have "f \<notin> set (name @ [CHR ''='', DQ])" by simp
      with literal_next_char [of "CHR '' ''" "name @ [CHR ''='', DQ]" u f F'] Nil.prems Cons
      show ?thesis by auto
    qed
  next
    case (Cons p ps)
    show ?case
    proof (cases p)
      case (Text t)
      with Cons.prems have "\<not> prefix ?L ((u @ t) @ render ps @ F)"
        by (intro Cons.IH) auto
      with Text show ?thesis by simp
    next
      case (Attr n v)
      from Cons.prems(1) obtain c u' where u: "u = c # u'" by (cases u) auto
      with Cons.prems(2) have "DQ \<notin> set u'" by simp
      from no_literal_before_attr [OF assms(4) this]
      have "\<not> prefix (name @ [CHR ''='', DQ]) (u' @ CHR '' '' # n @ [CHR ''='', DQ] @ v @ [DQ] @ render ps @ F)" .
      with Attr u show ?thesis by simp
    qed
  qed
  then show ?thesis by (simp add: re_attr_group_def)
qed

lemma re_attr_None: "re_attr_group name s = None \<Longrightarrow> re_attr name s = None"
  by (simp add: re_attr_def)

lemma re_sub_attr_not_hit:
  assumes "wf_attr n v" "\<not> (n = name \<and> v \<noteq> [])"
    and "CHR ''='' \<notin> set name" "DQ \<notin> set name"
  shows "re_sub (re_attr name) repl (render_piece (Attr n v) @ s) =
           render_piece (Attr n v) @ re_sub (re_attr name) repl s"
proof -
  note w = wf_attr_D [OF assms(1)]
  let ?m = "re_attr name"
  have "re_attr_group name (render_piece (Attr n v) @ s) = None"
    using re_attr_group_attr [OF w(2) assms(3) w(6), of s] assms(2) by simp
  then have "?m (CHR '' '' # n @ [CHR ''='', DQ] @ v @ DQ # s) = None"
    by (simp add: re_attr_def)
  then have 1: "re_sub ?m repl (CHR '' '' # n @ [CHR ''='', DQ] @ v @ DQ # s) =
           CHR '' '' # re_sub ?m repl (n @ [CHR ''='', DQ] @ v @ DQ # s)"
    by (simp add: re_sub_step)
  have ns: "?m (c # t) = None" if "c \<noteq> CHR '' ''" for c t
    using that by (simp add: re_attr_def re_attr_group_not_space)
  have 2: "re_sub ?m repl (n @ ([CHR ''='', DQ] @ v @ DQ # s)) =
           n @ re_sub ?m repl ([CHR ''='', DQ] @ v @ DQ # s)"
  proof (rule re_sub_skip)
    fix c t assume "c \<in> set n"
    with w(1) have "c \<noteq> CHR '' ''" by blast
    then show "?m (c # t) = None" by (rule ns)
  qed
  have 3: "re_sub ?m repl ([CHR ''='', DQ] @ (v @ DQ # s)) =
           [CHR ''='', DQ] @ re_sub ?m repl (v @ DQ # s)"
  proof (rule re_sub_skip)
    fix c t assume "c \<in> set [CHR ''='', DQ]"
    then have "c \<noteq> CHR '' ''" by auto
    then show "?m (c # t) = None" by (rule ns)
  qed
  have 4: "re_sub ?m repl (v @ (DQ # s)) = v @ re_sub ?m repl (DQ # s)"
  proof (rule re_sub_skip_text)
    fix u assume "u \<noteq> []" "suffix u v"
    then have "DQ \<notin> set u" "CHR ''='' \<notin> set u"
      using w(6,7) by (auto dest: set_mono_suffix)
    from re_attr_group_in_value [OF assms(4) this] show "?m (u @ DQ # s) = None"
      by (rule re_attr_None)
  qed
  have 5: "re_sub ?m repl (DQ # s) = DQ # re_sub ?m repl s"
    by (simp add: re_sub_step ns)
  have "re_sub ?m repl (render_piece (Attr n v) @ s) =
          re_sub ?m repl (CHR '' '' # n @ [CHR ''='', DQ] @ v @ DQ # s)" by simp
  also have "\<dots> = CHR '' '' # n @ [CHR ''='', DQ] @ v @ DQ # re_sub ?m repl s"
    unfolding 1 using 2 3 4 5 by (simp only: append_assoc append_Cons append_Nil)
  finally show ?thesis by simp
qed

lemma re_sub_attr_hit:
  assumes "wf_attr name v" "v \<noteq> []"
  shows "re_sub (re_attr name) repl (render_piece (Attr name v) @ s) =
           repl @ re_sub (re_attr name) repl s"
proof -
  note w = wf_attr_D [OF assms(1)]
  define a where "a = name @ [CHR ''='', DQ] @ v @ [DQ]"
  have r: "render_piece (Attr name v) @ s = CHR '' '' # a @ s"
    by (simp add: a_def)
  have "re_attr_group name (render_piece (Attr name v) @ s) =
          Some (length (render_piece (Attr name v)), v)"
    using re_attr_group_attr [OF w(2) w(2) w(6), of s] assms(2) by simp
  then have "re_attr name (CHR '' '' # a @ s) = Some (Suc (length a))"
    unfolding r by (simp add: re_attr_def a_def)
  then have "re_sub (re_attr name) repl (CHR '' '' # a @ s) =
               repl @ re_sub (re_attr name) repl (drop (length a) (a @ s))"
    by (rule re_sub_match)
  then show ?thesis unfolding r by simp
qed

lemma re_sub_attr_render:
  assumes "list_all wf_body_piece ps"
    and "CHR '' '' \<notin> set name" "CHR ''='' \<notin> set name" "DQ \<notin> set name"
    and "F = [] \<or> hd F \<notin> set (name @ [CHR ''='', DQ])"
  shows "re_sub (re_attr name) [] (render ps @ F) =
           render (filter (\<lambda>p. \<not> is_attr name p) ps) @ re_sub (re_attr name) [] F"
  using assms(1)
proof (induction ps)
  case Nil
  show ?case by simp
next
  case (Cons p ps)
  then have IH: "re_sub (re_attr name) [] (render ps @ F) =
           render (filter (\<lambda>p. \<not> is_attr name p) ps) @ re_sub (re_attr name) [] F"
    and wf: "list_all wf_body_piece ps" by simp_all
  show ?case
  proof (cases p)
    case (Text t)
    have "re_sub (re_attr name) [] (t @ (render ps @ F)) = t @ re_sub (re_attr name) [] (render ps @ F)"
    proof (rule re_sub_skip_text)
      fix u assume "u \<noteq> []" "suffix u t"
      moreover with Cons.prems Text have "DQ \<notin> set u" by (auto dest: set_mono_suffix)
      ultimately show "re_attr name (u @ render ps @ F) = None"
        using assms(5) by (intro re_attr_None re_attr_group_text wf assms(2,4)) auto
    qed
    with Text IH show ?thesis by simp
  next
    case (Attr n v)
    with Cons.prems have w: "wf_attr n v" by simp
    show ?thesis
    proof (cases "n = name \<and> v \<noteq> []")
      case True
      with re_sub_attr_hit [of name v "[]" "render ps @ F"] w Attr IH show ?thesis by simp
    next
      case False
      with re_sub_attr_not_hit [OF w False assms(3,4), of "[]" "render ps @ F"] Attr IH
      show ?thesis by simp
    qed
  qed
qed

section \<open>Namespace patterns on rendered pieces\<close>

lemma match_chars_literal:
  assumes "CHR ''.'' \<notin> set N"
  shows "match_chars (N @ P) s \<longleftrightarrow> prefix N s \<and> match_chars P (drop (length N) s)"
  using assms
proof (induction N arbitrary: s)
  case Nil
  show ?case by simp
next
  case (Cons a N)
  then show ?case by (cases s) auto
qed

lemma match_quote_only:
  assumes "DQ \<notin> set v"
  shows "match_chars [DQ] (v @ DQ # F) \<longleftrightarrow> v = []"
  using assms by (cases v) auto

lemma follows_attr_not_quote: "follows_attr (f # F) \<Longrightarrow> f \<noteq> DQ"
  by (auto simp: follows_attr_def is_space_def)

lemma match_value:
  assumes "dots_ok V" "DQ \<notin> set v" "follows_attr F"
  shows "match_chars (V @ [DQ]) (v @ DQ # F) \<longleftrightarrow> length v = length V \<and> match_chars V v"
  using assms(1,2)
proof (induction V arbitrary: v rule: dots_ok.induct)
  case 1
  then show ?case using match_quote_only [of v F] by simp
next
  case (2 p)
  from assms(3) obtain f F' where F: "F = f # F'" by (cases F) (auto simp: follows_attr_def)
  with assms(3) have f: "f \<noteq> DQ" by (simp add: follows_attr_not_quote)
  show ?case
  proof (cases v)
    case Nil
    with 2 F f show ?thesis by auto
  next
    case (Cons c v')
    with 2 match_quote_only [of v' F] show ?thesis by auto
  qed
next
  case (3 p q r)
  from assms(3) obtain f F' where F: "F = f # F'" by (cases F) (auto simp: follows_attr_def)
  with assms(3) have f: "is_space f \<or> f = CHR ''>'' \<or> f = CHR ''/''"
    by (simp add: follows_attr_def)
  show ?case
  proof (cases v)
    case Nil
    with 3 F f show ?thesis by auto
  next
    case (Cons c v')
    with 3 have "match_chars ((q # r) @ [DQ]) (v' @ DQ # F) \<longleftrightarrow>
                   length v' = length (q # r) \<and> match_chars (q # r) v'"
      by (intro "3.IH") simp_all
    with Cons show ?thesis by auto
  qed
qed

lemma follows_attr_render:
  assumes "list_all wf_tag_piece ps" "follows_attr close"
  shows "follows_attr (render ps @ close)"
  using assms(1)
proof (induction ps)
  case Nil
  with assms(2) show ?case by simp
next
  case (Cons p ps)
  show ?case
  proof (cases p)
    case (Attr n v)
    then show ?thesis by (simp add: follows_attr_def is_space_def)
  next
    case (Text t)
    show ?thesis
    proof (cases t)
      case Nil
      with Text Cons show ?thesis by simp
    next
      case (Cons c t')
      with Text \<open>list_all wf_tag_piece (p # ps)\<close> show ?thesis
        by (simp add: follows_attr_def)
    qed
  qed
qed

text \<open>The matcher of a namespace pattern on an attribute of a start tag.\<close>

lemma re_chars_attr:
  assumes N: "CHR ''.'' \<notin> set N" "CHR ''='' \<notin> set N" "DQ \<notin> set N"
    and V: "dots_ok V"
    and w: "wf_attr n v" and F: "follows_attr F"
  shows "re_chars (CHR '' '' # N @ [CHR ''='', DQ] @ V @ [DQ]) (render_piece (Attr n v) @ F) =
           (if n = N \<and> length v = length V \<and> match_chars V v
            then Some (length (render_piece (Attr n v))) else None)"
proof -
  note wd = wf_attr_D [OF w]
  let ?lit = "CHR '' '' # N @ [CHR ''='', DQ]"
  have lit: "CHR ''.'' \<notin> set ?lit" using N by simp
  have "match_chars (?lit @ (V @ [DQ])) (render_piece (Attr n v) @ F) \<longleftrightarrow>
          prefix ?lit (render_piece (Attr n v) @ F)
          \<and> match_chars (V @ [DQ]) (drop (length ?lit) (render_piece (Attr n v) @ F))"
    by (rule match_chars_literal [OF lit])
  moreover have "prefix ?lit (render_piece (Attr n v) @ F) \<longleftrightarrow> N = n"
    using prefix_name_eq [OF N(2) wd(2), of "[DQ]" "DQ # v @ DQ # F"] by simp
  moreover have "drop (length ?lit) (render_piece (Attr N v) @ F) = v @ DQ # F"
    by simp
  moreover note match_value [OF V wd(6) F]
  ultimately have "match_chars (?lit @ (V @ [DQ])) (render_piece (Attr n v) @ F) \<longleftrightarrow>
      n = N \<and> length v = length V \<and> match_chars V v"
    by (metis (no_types, lifting))
  then show ?thesis
    by (simp add: re_chars_def)
qed

lemma re_chars_in_value:
  assumes N: "CHR ''.'' \<notin> set N" "DQ \<notin> set N"
    and u: "DQ \<notin> set u" "CHR ''='' \<notin> set u"
  shows "re_chars (CHR '' '' # N @ [CHR ''='', DQ] @ V @ [DQ]) (u @ DQ # F) = None"
proof -
  let ?lit = "CHR '' '' # N @ [CHR ''='', DQ]"
  have lit: "CHR ''.'' \<notin> set ?lit" using N by simp
  have "\<not> prefix ?lit (u @ DQ # F)"
    using no_literal_in_value [of "CHR '' '' # N" u F] N u by simp
  with match_chars_literal [OF lit, of "V @ [DQ]" "u @ DQ # F"]
  have "\<not> match_chars (?lit @ (V @ [DQ])) (u @ DQ # F)" by blast
  then show ?thesis by (simp add: re_chars_def)
qed

lemma re_chars_not_space:
  "c \<noteq> CHR '' '' \<Longrightarrow> re_chars (CHR '' '' # P) (c # s) = None"
  by (simp add: re_chars_def)

lemma re_chars_in_gap:
  assumes N: "N \<noteq> []" "hd N \<noteq> CHR ''.''" "\<not> is_space (hd N)" "hd N \<noteq> CHR ''>''"
    "hd N \<noteq> CHR ''/''"
    and F: "follows_attr F"
  shows "re_chars (CHR '' '' # N @ P) (c # F) = None"
proof -
  from N(1) obtain a N' where a: "N = a # N'" by (cases N) auto
  from F obtain f F' where f: "F = f # F'" by (cases F) (auto simp: follows_attr_def)
  with F have "is_space f \<or> f = CHR ''>'' \<or> f = CHR ''/''" by (simp add: follows_attr_def)
  with N a have "a \<noteq> f" "a \<noteq> CHR ''.''" by auto
  then show ?thesis by (simp add: re_chars_def a f)
qed

lemma re_sub_step_None:
  "m (c # cs) = None \<Longrightarrow> re_sub m repl (c # cs) = c # re_sub m repl cs"
  by (simp add: re_sub_step)

lemma is_space_D: "list_all is_space t \<Longrightarrow> c \<in> set t \<Longrightarrow> is_space c"
  by (simp add: list_all_iff)

lemma re_sub_chars_render:
  assumes N: "CHR ''.'' \<notin> set N" "CHR ''='' \<notin> set N" "DQ \<notin> set N"
    "N \<noteq> []" "\<not> is_space (hd N)" "hd N \<noteq> CHR ''>''" "hd N \<noteq> CHR ''/''"
    and V: "dots_ok V"
    and close: "follows_attr close"
    and wf: "list_all wf_tag_piece ps"
  shows "re_sub (re_chars (CHR '' '' # N @ [CHR ''='', DQ] @ V @ [DQ])) [] (render ps @ close) =
           render (filter (\<lambda>p. \<not> (case p of Attr n v \<Rightarrow>
                                      n = N \<and> length v = length V \<and> match_chars V v
                                    | Text t \<Rightarrow> False)) ps)
           @ re_sub (re_chars (CHR '' '' # N @ [CHR ''='', DQ] @ V @ [DQ])) [] close"
  using wf
proof (induction ps)
  case Nil
  show ?case by simp
next
  case (Cons p ps)
  let ?m = "re_chars (CHR '' '' # N @ [CHR ''='', DQ] @ V @ [DQ])"
  let ?keep = "\<lambda>p. \<not> (case p of Attr n v \<Rightarrow> n = N \<and> length v = length V \<and> match_chars V v
                                    | Text t \<Rightarrow> False)"
  from Cons have IH: "re_sub ?m [] (render ps @ close) = render (filter ?keep ps) @ re_sub ?m [] close"
    and wps: "list_all wf_tag_piece ps" by simp_all
  have F: "follows_attr (render ps @ close)"
    by (rule follows_attr_render [OF wps close])
  have hdN: "hd N \<noteq> CHR ''.''" using N(1,4) by (cases N) auto
  have ns: "?m (c # t) = None" if "c \<noteq> CHR '' ''" for c t
    using that by (rule re_chars_not_space)
  show ?case
  proof (cases p)
    case (Text t)
    have "re_sub ?m [] (t @ (render ps @ close)) = t @ re_sub ?m [] (render ps @ close)"
    proof (rule re_sub_skip_text)
      fix u assume u: "u \<noteq> []" "suffix u t"
      then obtain c u' where cu: "u = c # u'" by (cases u) auto
      from u Cons.prems Text have "list_all is_space u"
        by (auto simp: list_all_iff dest: set_mono_suffix)
      with cu have "list_all wf_tag_piece (Text u' # ps)" using wps by simp
      from follows_attr_render [OF this close]
      have "follows_attr (u' @ render ps @ close)" by simp
      from re_chars_in_gap [OF N(4) hdN N(5-7) this, of "[CHR ''='', DQ] @ V @ [DQ]" c]
      show "?m (u @ render ps @ close) = None" by (simp add: cu)
    qed
    with Text IH show ?thesis by simp
  next
    case (Attr n v)
    with Cons.prems have w: "wf_attr n v" by simp
    note wd = wf_attr_D [OF w]
    note ma = re_chars_attr [OF N(1-3) V w F]
    show ?thesis
    proof (cases "n = N \<and> length v = length V \<and> match_chars V v")
      case True
      define a where "a = n @ [CHR ''='', DQ] @ v @ [DQ]"
      have r: "render_piece (Attr n v) @ render ps @ close = CHR '' '' # a @ render ps @ close"
        by (simp add: a_def)
      from ma True have "?m (CHR '' '' # a @ render ps @ close) = Some (Suc (length a))"
        unfolding r by (simp add: a_def)
      then have "re_sub ?m [] (CHR '' '' # a @ render ps @ close) =
                   [] @ re_sub ?m [] (drop (length a) (a @ render ps @ close))"
        by (rule re_sub_match)
      with True Attr IH r show ?thesis by simp
    next
      case False
      let ?s = "render ps @ close"
      from ma False have "?m (CHR '' '' # n @ [CHR ''='', DQ] @ v @ DQ # ?s) = None"
        by simp
      then have 1: "re_sub ?m [] (CHR '' '' # n @ [CHR ''='', DQ] @ v @ DQ # ?s) =
           CHR '' '' # re_sub ?m [] (n @ [CHR ''='', DQ] @ v @ DQ # ?s)"
        by (rule re_sub_step_None)
      have 2: "re_sub ?m [] (n @ ([CHR ''='', DQ] @ v @ DQ # ?s)) =
           n @ re_sub ?m [] ([CHR ''='', DQ] @ v @ DQ # ?s)"
      proof (rule re_sub_skip)
        fix c t assume "c \<in> set n"
        with wd(1) have "c \<noteq> CHR '' ''" by blast
        then show "?m (c # t) = None" by (rule ns)
      qed
      have 3: "re_sub ?m [] ([CHR ''='', DQ] @ (v @ DQ # ?s)) =
           [CHR ''='', DQ] @ re_sub ?m [] (v @ DQ # ?s)"
      proof (rule re_sub_skip)
        fix c t assume "c \<in> set [CHR ''='', DQ]"
        then have "c \<noteq> CHR '' ''" by auto
        then show "?m (c # t) = None" by (rule ns)
      qed
      have 4: "re_sub ?m [] (v @ (DQ # ?s)) = v @ re_sub ?m [] (DQ # ?s)"
      proof (rule re_sub_skip_text)
        fix u assume "u \<noteq> []" "suffix u v"
        then have "DQ \<notin> set u" "CHR ''='' \<notin> set u"
          using wd(6,7) by (auto dest: set_mono_suffix)
        from re_chars_in_value [OF N(1,3) this] show "?m (u @ DQ # ?s) = None" .
      qed
      have 5: "re_sub ?m [] (DQ # ?s) = DQ # re_sub ?m [] ?s"
        by (rule re_sub_step_None, rule ns) simp
      have "re_sub ?m [] (render_piece (Attr n v) @ ?s) =
          re_sub ?m [] (CHR '' '' # n @ [CHR ''='', DQ] @ v @ DQ # ?s)" by simp
      also have "\<dots> = CHR '' '' # n @ [CHR ''='', DQ] @ v @ DQ # re_sub ?m [] ?s"
        unfolding 1 using 2 3 4 5 by (simp only: append_assoc append_Cons append_Nil)
      finally show ?thesis using False Attr IH by simp
    qed
  qed
qed

section \<open>The normalizer on a well-formed start tag\<close>

lemma list_all_filter: "list_all P ps \<Longrightarrow> list_all P (filter Q ps)"
  by (simp add: list_all_iff)

lemma re_sub_close:
  assumes m: "\<And>c t. c \<noteq> CHR '' '' \<Longrightarrow> m (c # t) = None"
    and close: "close = ''>'' \<or> close = ''/>''"
  shows "re_sub m repl close = close"
proof -
  have 1: "m (CHR ''>'' # t) = None" for t by (rule m) simp
  have 2: "m (CHR ''/'' # t) = None" for t by (rule m) simp
  from close show ?thesis
  proof
    assume "close = ''>''"
    then show ?thesis by (simp add: re_sub_step_None 1)
  next
    assume "close = ''/>''"
    then show ?thesis by (simp add: re_sub_step_None 1 2)
  qed
qed

lemma follows_attr_close: "close = ''>'' \<or> close = ''/>'' \<Longrightarrow> follows_attr close"
  by (auto simp: follows_attr_def)

lemma strip_xmlns:
  assumes "list_all wf_tag_piece ps" "close = ''>'' \<or> close = ''/>''"
  shows "re_sub xmlns_re [] (render ps @ close) =
           render (filter (\<lambda>p. \<not> (case p of Attr n v \<Rightarrow>
               n = ''xmlns'' \<and> length v = length ''http://www.w3.org/2000/svg''
               \<and> match_chars ''http://www.w3.org/2000/svg'' v | Text t \<Rightarrow> False)) ps) @ close"
proof -
  have p: \<open>xmlns_re = re_chars (CHR '' '' # ''xmlns'' @ [CHR ''='', DQ]
             @ ''http://www.w3.org/2000/svg'' @ [DQ])\<close>
    by (simp add: xmlns_re_def)
  have d: "dots_ok ''http://www.w3.org/2000/svg''"
    by (simp add: is_space_def)
  have c: "re_sub xmlns_re [] close = close"
    by (rule re_sub_close [of xmlns_re, OF xmlns_not_space assms(2)])
  show ?thesis
    unfolding p
    using re_sub_chars_render [OF _ _ _ _ _ _ _ d follows_attr_close [OF assms(2)] assms(1),
        of "''xmlns''"] c [unfolded p]
    by (simp add: is_space_def)
qed

lemma strip_xlink:
  assumes "list_all wf_tag_piece ps" "close = ''>'' \<or> close = ''/>''"
  shows "re_sub xlink_re [] (render ps @ close) =
           render (filter (\<lambda>p. \<not> (case p of Attr n v \<Rightarrow>
               n = ''xmlns:xlink'' \<and> length v = length ''http://www.w3.org/1999/xlink''
               \<and> match_chars ''http://www.w3.org/1999/xlink'' v | Text t \<Rightarrow> False)) ps) @ close"
proof -
  have p: \<open>xlink_re = re_chars (CHR '' '' # ''xmlns:xlink'' @ [CHR ''='', DQ]
             @ ''http://www.w3.org/1999/xlink'' @ [DQ])\<close>
    by (simp add: xlink_re_def)
  have d: "dots_ok ''http://www.w3.org/1999/xlink''"
    by (simp add: is_space_def)
  have c: "re_sub xlink_re [] close = close"
    by (rule re_sub_close [of xlink_re, OF xlink_not_space assms(2)])
  show ?thesis
    unfolding p
    using re_sub_chars_render [OF _ _ _ _ _ _ _ d follows_attr_close [OF assms(2)] assms(1),
        of "''xmlns:xlink''"] c [unfolded p]
    by (simp add: is_space_def)
qed

lemma strip_attr:
  assumes "list_all wf_tag_piece ps" "close = ''>'' \<or> close = ''/>''"
    and "CHR '' '' \<notin> set name" "CHR ''='' \<notin> set name" "DQ \<notin> set name"
    and "CHR ''>'' \<notin> set name" "CHR ''/'' \<notin> set name"
  shows "re_sub (re_attr name) [] (render ps @ close) =
           render (filter (\<lambda>p. \<not> is_attr name p) ps) @ close"
proof -
  have w: "list_all wf_body_piece ps"
    using assms(1) wf_tag_body by (auto simp: list_all_iff)
  have h: "close = [] \<or> hd close \<notin> set (name @ [CHR ''='', DQ])"
    using assms(2,6,7) by auto
  have c: "re_sub (re_attr name) [] close = close"
    by (rule re_sub_close [of "re_attr name", OF re_attr_not_space assms(2)])
  from re_sub_attr_render [OF w assms(3-5) h] c show ?thesis by simp
qed

lemma py_replace_absent:
  assumes "a \<notin> set s"
  shows "py_replace (a # old) new s = s"
proof -
  have "re_sub (\<lambda>t. if prefix (a # old) t then Some (length (a # old)) else None) new (s @ []) =
          s @ re_sub (\<lambda>t. if prefix (a # old) t then Some (length (a # old)) else None) new []"
  proof (rule re_sub_skip)
    fix c t assume "c \<in> set s"
    with assms have "c \<noteq> a" by blast
    then show "(if prefix (a # old) (c # t) then Some (length (a # old)) else None) = None"
      by simp
  qed
  then show ?thesis by (simp add: py_replace_def)
qed

lemma render_no_lt:
  assumes "list_all wf_tag_piece ps"
  shows "CHR ''<'' \<notin> set (render ps)"
  using assms
proof (induction ps)
  case Nil
  show ?case by simp
next
  case (Cons p ps)
  show ?case
  proof (cases p)
    case (Attr n v)
    with Cons wf_attr_D(4,8) [of n v] show ?thesis by simp
  next
    case (Text t)
    with Cons have "list_all is_space t" by simp
    moreover have "\<not> is_space (CHR ''<'')" by (simp add: is_space_def)
    ultimately have "CHR ''<'' \<notin> set t" using is_space_D by blast
    with Cons Text show ?thesis by simp
  qed
qed

lemma prop8:
  "(\<not> A \<and> \<not> B \<and> \<not> (C \<and> V) \<and> \<not> (D \<and> V) \<and> \<not> (E \<and> V) \<and> \<not> (F \<and> V)
      \<and> \<not> (G \<and> V) \<and> \<not> (H \<and> V))
   \<longleftrightarrow> \<not> (A \<or> B \<or> V \<and> (C \<or> D \<or> E \<or> F \<or> G \<or> H))"
  by blast

lemma stripped_filters:
  "(\<not> (case p of Attr n v \<Rightarrow>
               n = ''xmlns'' \<and> length v = length ''http://www.w3.org/2000/svg''
               \<and> match_chars ''http://www.w3.org/2000/svg'' v | Text t \<Rightarrow> False)
    \<and> \<not> (case p of Attr n v \<Rightarrow>
               n = ''xmlns:xlink'' \<and> length v = length ''http://www.w3.org/1999/xlink''
               \<and> match_chars ''http://www.w3.org/1999/xlink'' v | Text t \<Rightarrow> False)
    \<and> \<not> is_attr ''id'' p \<and> \<not> is_attr ''version'' p \<and> \<not> is_attr ''x'' p
    \<and> \<not> is_attr ''y'' p \<and> \<not> is_attr ''enable-background'' p \<and> \<not> is_attr ''xml:space'' p)
   \<longleftrightarrow> \<not> stripped p"
proof (cases p)
  case (Text t)
  then show ?thesis by simp
next
  case (Attr n v)
  have m: "n \<in> set [''id'', ''version'', ''x'', ''y'', ''enable-background'', ''xml:space'']
     \<longleftrightarrow> n = ''id'' \<or> n = ''version'' \<or> n = ''x'' \<or> n = ''y'' \<or> n = ''enable-background''
         \<or> n = ''xml:space''"
    by (simp only: list.set insert_iff empty_iff simp_thms)
  have l: "length ''http://www.w3.org/2000/svg'' = 26" "length ''http://www.w3.org/1999/xlink'' = 28"
    by simp_all
  show ?thesis
    unfolding Attr
    by (simp only: piece.case is_attr.simps stripped.simps m l) (rule prop8)
qed

lemma filters_stripped:
  "filter (\<lambda>p. \<not> is_attr ''xml:space'' p)
    (filter (\<lambda>p. \<not> is_attr ''enable-background'' p)
      (filter (\<lambda>p. \<not> is_attr ''y'' p)
        (filter (\<lambda>p. \<not> is_attr ''x'' p)
          (filter (\<lambda>p. \<not> is_attr ''version'' p)
            (filter (\<lambda>p. \<not> is_attr ''id'' p)
              (filter (\<lambda>p. \<not> (case p of Attr n v \<Rightarrow>
                 n = ''xmlns:xlink'' \<and> length v = length ''http://www.w3.org/1999/xlink''
                 \<and> match_chars ''http://www.w3.org/1999/xlink'' v | Text t \<Rightarrow> False))
                (filter (\<lambda>p. \<not> (case p of Attr n v \<Rightarrow>
                   n = ''xmlns'' \<and> length v = length ''http://www.w3.org/2000/svg''
                   \<and> match_chars ''http://www.w3.org/2000/svg'' v | Text t \<Rightarrow> False)) ps)))))))
   = filter (\<lambda>p. \<not> stripped p) ps"
  by (simp only: filter_filter conj_assoc stripped_filters)

lemma clean_start_tag_render:
  assumes wf: "list_all wf_tag_piece ps" and close: "close = ''>'' \<or> close = ''/>''"
  shows \<open>clean_start_tag (''<svg'' @ render ps @ close) icon_name =
           ''  <svg id="'' @ icon_name @ [DQ] @ render (filter (\<lambda>p. \<not> stripped p) ps) @ close\<close>
proof -
  note f = list_all_filter
  let ?new = \<open>''  <svg id="'' @ icon_name @ [DQ]\<close>
  have lt: "CHR ''<'' \<notin> set (render (filter (\<lambda>p. \<not> stripped p) ps) @ close)"
    using render_no_lt [OF f [OF wf]] close by auto
  have n: "CHR '' '' \<notin> set ''id''" "CHR ''='' \<notin> set ''id''" "DQ \<notin> set ''id''"
       "CHR ''>'' \<notin> set ''id''" "CHR ''/'' \<notin> set ''id''"
    "CHR '' '' \<notin> set ''version''" "CHR ''='' \<notin> set ''version''" "DQ \<notin> set ''version''"
       "CHR ''>'' \<notin> set ''version''" "CHR ''/'' \<notin> set ''version''"
    "CHR '' '' \<notin> set ''x''" "CHR ''='' \<notin> set ''x''" "DQ \<notin> set ''x''"
       "CHR ''>'' \<notin> set ''x''" "CHR ''/'' \<notin> set ''x''"
    "CHR '' '' \<notin> set ''y''" "CHR ''='' \<notin> set ''y''" "DQ \<notin> set ''y''"
       "CHR ''>'' \<notin> set ''y''" "CHR ''/'' \<notin> set ''y''"
    "CHR '' '' \<notin> set ''enable-background''" "CHR ''='' \<notin> set ''enable-background''"
       "DQ \<notin> set ''enable-background''"
       "CHR ''>'' \<notin> set ''enable-background''" "CHR ''/'' \<notin> set ''enable-background''"
    "CHR '' '' \<notin> set ''xml:space''" "CHR ''='' \<notin> set ''xml:space''" "DQ \<notin> set ''xml:space''"
       "CHR ''>'' \<notin> set ''xml:space''" "CHR ''/'' \<notin> set ''xml:space''"
    by simp_all
  have "clean_start_tag (''<svg'' @ render ps @ close) icon_name =
          ?new @ py_replace ''<svg'' ?new (render (filter (\<lambda>p. \<not> stripped p) ps) @ close)"
    unfolding clean_start_tag_def Let_def start_tag_subs_keep_svg
    apply (subst strip_xmlns [OF wf close])
    apply (subst strip_xlink [OF f [OF wf] close])
    unfolding id_re_def version_re_def x_re_def y_re_def enable_background_re_def
      xml_space_re_def
    apply (subst strip_attr [OF f [OF f [OF wf]] close n(1-5)])
    apply (subst strip_attr [OF f [OF f [OF f [OF wf]]] close n(6-10)])
    apply (subst strip_attr [OF f [OF f [OF f [OF f [OF wf]]]] close n(11-15)])
    apply (subst strip_attr [OF f [OF f [OF f [OF f [OF f [OF wf]]]]] close n(16-20)])
    apply (subst strip_attr [OF f [OF f [OF f [OF f [OF f [OF f [OF wf]]]]]] close n(21-25)])
    apply (subst strip_attr [OF f [OF f [OF f [OF f [OF f [OF f [OF f [OF wf]]]]]]] close
             n(26-30)])
    apply (subst filters_stripped)
    apply (rule py_replace_at_match)
    done
  with py_replace_absent [OF lt] show ?thesis by simp
qed

lemma find_sub_None: "find_sub sub s = None \<Longrightarrow> suffix u s \<Longrightarrow> \<not> prefix sub u"
proof (induction s)
  case Nil
  then show ?case by (auto split: if_splits)
next
  case (Cons c s)
  from Cons.prems(2) have "u = c # s \<or> suffix u s" by (simp add: suffix_Cons)
  with Cons show ?case by (auto split: if_splits)
qed

lemma find_sub_skip:
  assumes "\<And>u. u \<noteq> [] \<Longrightarrow> suffix u pre \<Longrightarrow> \<not> prefix sub (u @ s)"
  shows "find_sub sub (pre @ s) = map_option (\<lambda>i. length pre + i) (find_sub sub s)"
  using assms
proof (induction pre)
  case Nil
  show ?case by (simp add: option.map_ident)
next
  case (Cons c pre)
  have "\<not> prefix sub ((c # pre) @ s)" by (rule Cons.prems) simp_all
  moreover have "find_sub sub (pre @ s) = map_option (\<lambda>i. length pre + i) (find_sub sub s)"
  proof (rule Cons.IH)
    fix u assume "u \<noteq> []" "suffix u pre"
    then show "\<not> prefix sub (u @ s)"
      by (intro Cons.prems suffix_ConsI)
  qed
  ultimately show ?case by (simp add: option.map_comp comp_def)
qed

lemma prefix_nth:
  assumes "prefix p (u @ a # z)" "length u < length p"
  shows "p ! length u = a"
proof -
  from assms(1) obtain w where "u @ a # z = p @ w" by (auto simp: prefix_def)
  then have "(u @ a # z) ! length u = (p @ w) ! length u" by simp
  with assms(2) show ?thesis by (simp add: nth_append)
qed

lemma svg_not_straddling:
  assumes "prefix ''<svg '' (u @ ''<svg '' @ r)" "u \<noteq> []"
  shows "prefix ''<svg '' u"
proof (cases "length u < 5")
  case True
  with prefix_nth [of "''<svg ''" u "CHR ''<''" "''svg '' @ r"] assms(1)
  have n: "''<svg '' ! length u = CHR ''<''" by simp
  from assms(2) have "length u \<noteq> 0" by simp
  with True have "length u = 1 \<or> length u = 2 \<or> length u = 3 \<or> length u = 4"
    by arith
  with n show ?thesis by (auto simp: numeral_2_eq_2 numeral_3_eq_3 eval_nat_numeral)
next
  case False
  have "prefix u (u @ ''<svg '' @ r)" by simp
  with assms(1) False show ?thesis
    using prefix_length_prefix [of "''<svg ''" "u @ ''<svg '' @ r" u] by simp
qed

lemma index_of_root:
  assumes "\<not> contains ''<svg '' pre"
  shows "py_index (pre @ ''<svg '' @ r) ''<svg '' 0 = Inr (length pre)"
proof -
  from assms have n: "find_sub ''<svg '' pre = None" by (simp add: contains_def)
  have "find_sub ''<svg '' (pre @ ''<svg '' @ r) =
          map_option (\<lambda>i. length pre + i) (find_sub ''<svg '' (''<svg '' @ r))"
  proof (rule find_sub_skip)
    fix u assume u: "u \<noteq> []" "suffix u pre"
    show "\<not> prefix ''<svg '' (u @ ''<svg '' @ r)"
    proof
      assume "prefix ''<svg '' (u @ ''<svg '' @ r)"
      then have "prefix ''<svg '' u" using u(1) by (rule svg_not_straddling)
      with find_sub_None [OF n u(2)] show False by blast
    qed
  qed
  then show ?thesis by (simp add: py_index_def)
qed

lemma find_sub_char:
  assumes "a \<notin> set x"
  shows "find_sub [a] (x @ a # y) = Some (length x)"
  using assms by (induction x) auto

lemma render_no_gt:
  assumes "list_all wf_tag_piece ps"
  shows "CHR ''>'' \<notin> set (render ps)"
  using assms
proof (induction ps)
  case Nil
  show ?case by simp
next
  case (Cons p ps)
  show ?case
  proof (cases p)
    case (Attr n v)
    with Cons wf_attr_D(5,9) [of n v] show ?thesis by simp
  next
    case (Text t)
    with Cons have "list_all is_space t" by simp
    moreover have "\<not> is_space (CHR ''>'')" by (simp add: is_space_def)
    ultimately have "CHR ''>'' \<notin> set t" using is_space_D by blast
    with Cons Text show ?thesis by simp
  qed
qed

text \<open>The normalizer on markup whose root start tag is written with pieces.\<close>

lemma clean_markup_render:
  assumes pre: "\<not> contains ''<svg '' pre"
    and sp: "prefix '' '' (render ps)"
    and wf: "list_all wf_tag_piece ps"
    and close: "close = ''>'' \<or> close = ''/>''"
  shows \<open>clean_markup (pre @ ''<svg'' @ render ps @ close @ body) icon_name =
           (case ensure_newlines (clean_the_rest body) of
              Inl e \<Rightarrow> Inl e
            | Inr the_rest \<Rightarrow>
                Inr (''  <svg id="'' @ icon_name @ [DQ]
                     @ render (filter (\<lambda>p. \<not> stripped p) ps) @ close @ the_rest))\<close>
proof -
  let ?markup = "pre @ ''<svg'' @ render ps @ close @ body"
  from sp obtain r where r: "render ps = CHR '' '' # r" by (auto simp: prefix_def)
  have m: "?markup = pre @ ''<svg '' @ (r @ close @ body)" by (simp add: r)
  have a: "py_index ?markup ''<svg '' 0 = Inr (length pre)"
    unfolding m by (rule index_of_root [OF pre])
  define x where "x = ''svg'' @ render ps @ butlast close"
  have cl: "close = butlast close @ ''>''" using close by auto
  have gt: "CHR ''>'' \<notin> set x"
    using render_no_gt [OF wf] close by (auto simp: x_def)
  have d: "drop (length pre + 1) ?markup = x @ CHR ''>'' # body"
    using cl by (simp add: x_def)
  have i: "py_index ?markup ''>'' (length pre + 1) = Inr (length pre + 1 + length x)"
    unfolding py_index_def d using find_sub_char [OF gt, of body] by simp
  define t where "t = ''<svg'' @ render ps @ close"
  have mt: "?markup = pre @ t @ body" by (simp add: t_def)
  have lx: "length pre + 1 + length x + 1 = length pre + length t"
    using close by (auto simp: x_def t_def)
  have "py_slice (pre @ t @ body) (length pre) (length pre + length t) = t"
    unfolding py_slice_def by simp
  then have st: "py_slice ?markup (length pre) (length pre + 1 + length x + 1) =
              ''<svg'' @ render ps @ close"
    unfolding lx mt by (simp only: t_def)
  have "drop (length pre + length t) (pre @ t @ body) = body" by simp
  then have rest: "drop (length pre + 1 + length x + 1) ?markup = body"
    unfolding lx mt .
  show ?thesis
    unfolding clean_markup_def a i sum.case Let_def st rest
      clean_start_tag_render [OF wf close]
    by (simp split: sum.splits)
qed

section \<open>Searching for width and height\<close>

lemma re_search_skip_text:
  assumes "\<And>u. u \<noteq> [] \<Longrightarrow> suffix u t \<Longrightarrow> m (u @ s) = None"
  shows "re_search m (t @ s) = re_search m s"
  using assms
proof (induction t)
  case Nil
  show ?case by simp
next
  case (Cons c t)
  have "m ((c # t) @ s) = None" by (rule Cons.prems) simp_all
  moreover have "re_search m (t @ s) = re_search m s"
  proof (rule Cons.IH)
    fix u assume "u \<noteq> []" "suffix u t"
    then show "m (u @ s) = None" by (intro Cons.prems suffix_ConsI)
  qed
  ultimately show ?case by simp
qed

lemma re_search_skip:
  assumes "\<And>c t. c \<in> set p \<Longrightarrow> m (c # t) = None"
  shows "re_search m (p @ s) = re_search m s"
  using assms by (induction p) auto

lemma re_search_at_head: "m (c # s) = Some r \<Longrightarrow> re_search m (c # s) = Some r"
  by simp

lemma re_search_attr_not_hit:
  assumes "wf_attr n v" "\<not> (n = name \<and> v \<noteq> [])"
    and "CHR ''='' \<notin> set name" "DQ \<notin> set name"
  shows "re_search (re_attr_group name) (render_piece (Attr n v) @ s) =
           re_search (re_attr_group name) s"
proof -
  note w = wf_attr_D [OF assms(1)]
  let ?m = "re_attr_group name"
  have "?m (render_piece (Attr n v) @ s) = None"
    using re_attr_group_attr [OF w(2) assms(3) w(6), of s] assms(2) by simp
  then have "?m (CHR '' '' # n @ [CHR ''='', DQ] @ v @ DQ # s) = None"
    by simp
  then have 1: "re_search ?m (CHR '' '' # n @ [CHR ''='', DQ] @ v @ DQ # s) =
           re_search ?m (n @ [CHR ''='', DQ] @ v @ DQ # s)"
    by simp
  have ns: "?m (c # t) = None" if "c \<noteq> CHR '' ''" for c t
    using that by (rule re_attr_group_not_space)
  have 2: "re_search ?m (n @ ([CHR ''='', DQ] @ v @ DQ # s)) =
           re_search ?m ([CHR ''='', DQ] @ v @ DQ # s)"
  proof (rule re_search_skip)
    fix c t assume "c \<in> set n"
    with w(1) have "c \<noteq> CHR '' ''" by blast
    then show "?m (c # t) = None" by (rule ns)
  qed
  have 3: "re_search ?m ([CHR ''='', DQ] @ (v @ DQ # s)) = re_search ?m (v @ DQ # s)"
  proof (rule re_search_skip)
    fix c t assume "c \<in> set [CHR ''='', DQ]"
    then have "c \<noteq> CHR '' ''" by auto
    then show "?m (c # t) = None" by (rule ns)
  qed
  have 4: "re_search ?m (v @ (DQ # s)) = re_search ?m (DQ # s)"
  proof (rule re_search_skip_text)
    fix u assume "u \<noteq> []" "suffix u v"
    then have "DQ \<notin> set u" "CHR ''='' \<notin> set u"
      using w(6,7) by (auto dest: set_mono_suffix)
    from re_attr_group_in_value [OF assms(4) this] show "?m (u @ DQ # s) = None" .
  qed
  have "?m (DQ # s) = None" by (rule ns) simp
  then have 5: "re_search ?m (DQ # s) = re_search ?m s"
    by simp
  have "re_search ?m (render_piece (Attr n v) @ s) =
          re_search ?m (CHR '' '' # n @ [CHR ''='', DQ] @ v @ DQ # s)" by simp
  also have "\<dots> = re_search ?m s"
    unfolding 1 using 2 3 4 5 by (simp only: append_assoc append_Cons append_Nil)
  finally show ?thesis .
qed

lemma re_search_attr_render:
  assumes "list_all wf_body_piece ps"
    and "CHR '' '' \<notin> set name" "CHR ''='' \<notin> set name" "DQ \<notin> set name"
    and "find (is_attr name) ps = Some p"
  shows "\<exists>k v. p = Attr name v \<and> re_search (re_attr_group name) (render ps @ F) = Some (k, v)"
  using assms(1,5)
proof (induction ps)
  case Nil
  then show ?case by simp
next
  case (Cons q ps)
  then have wf: "list_all wf_body_piece ps" by simp
  show ?case
  proof (cases q)
    case (Text t)
    with Cons.prems have f: "find (is_attr name) ps = Some p" by simp
    then have "is_attr name p \<and> p \<in> set ps"
      by (auto simp: find_Some_iff)
    then have ex: "\<exists>n v. Attr n v \<in> set ps" by (cases p) auto
    have "re_search (re_attr_group name) (t @ (render ps @ F)) =
            re_search (re_attr_group name) (render ps @ F)"
    proof (rule re_search_skip_text)
      fix u assume "u \<noteq> []" "suffix u t"
      moreover with Cons.prems Text have "DQ \<notin> set u" by (auto dest: set_mono_suffix)
      ultimately show "re_attr_group name (u @ render ps @ F) = None"
        using ex by (intro re_attr_group_text wf assms(2,4)) auto
    qed
    with Cons.IH [OF wf f] Text show ?thesis by simp
  next
    case (Attr n v)
    with Cons.prems have w: "wf_attr n v" by simp
    note wd = wf_attr_D [OF w]
    show ?thesis
    proof (cases "n = name \<and> v \<noteq> []")
      case True
      with Cons.prems Attr have p: "p = Attr name v" by simp
      have "re_attr_group name (render_piece (Attr n v) @ render ps @ F) =
              Some (length (render_piece (Attr n v)), v)"
        using re_attr_group_attr [OF wd(2) assms(3) wd(6), of "render ps @ F"] True by simp
      then have "re_search (re_attr_group name) (render_piece (Attr n v) @ render ps @ F) =
              Some (length (render_piece (Attr n v)), v)"
        by simp
      with p Attr show ?thesis by simp
    next
      case False
      with Cons.prems Attr have f: "find (is_attr name) ps = Some p" by simp
      from re_search_attr_not_hit [OF w False assms(3,4), of "render ps @ F"]
        Cons.IH [OF wf f] Attr
      show ?thesis by simp
    qed
  qed
qed

lemma find_filter_implied:
  assumes "\<And>p. P p \<Longrightarrow> Q p"
  shows "find P (filter Q ps) = find P ps"
  using assms by (induction ps) auto

lemma is_attr_width_not_stripped: "is_attr ''width'' p \<Longrightarrow> \<not> stripped p"
  by (cases p) auto

lemma is_attr_height_not_stripped: "is_attr ''height'' p \<Longrightarrow> \<not> stripped p"
  by (cases p) auto

lemma re_attr_group_second:
  "a \<noteq> c \<Longrightarrow> re_attr_group (a # name) (CHR '' '' # c # t) = None"
  by (simp add: re_attr_group_def)

lemma search_group_raw:
  assumes pre: "\<not> contains (CHR '' '' # name @ [CHR ''='', DQ]) pre"
    and name: "CHR '' '' \<notin> set name" "CHR ''='' \<notin> set name" "DQ \<notin> set name"
      "CHR ''<'' \<notin> set name"
    and wf: "list_all wf_body_piece ps"
    and f: "find (is_attr name) ps = Some (Attr name v)"
  shows "search_group name (pre @ ''<svg'' @ render ps @ F) = Inr v"
proof -
  let ?L = "CHR '' '' # name @ [CHR ''='', DQ]"
  let ?g = "re_attr_group name"
  from pre have n: "find_sub ?L pre = None" by (simp add: contains_def)
  have lt: "CHR ''<'' \<notin> set ?L" using name(4) by simp
  have "re_search ?g (pre @ (''<svg'' @ render ps @ F)) = re_search ?g (''<svg'' @ render ps @ F)"
  proof (rule re_search_skip_text)
    fix u assume u: "u \<noteq> []" "suffix u pre"
    have "\<not> prefix ?L (u @ CHR ''<'' # ''svg'' @ render ps @ F)"
    proof
      assume p: "prefix ?L (u @ CHR ''<'' # ''svg'' @ render ps @ F)"
      show False
      proof (cases "length u < length ?L")
        case True
        from prefix_nth [OF p True] have "?L ! length u = CHR ''<''" .
        with True lt show False by (metis nth_mem)
      next
        case False
        have "prefix u (u @ CHR ''<'' # ''svg'' @ render ps @ F)" by simp
        with p False have "prefix ?L u"
          using prefix_length_prefix [of ?L _ u] by simp
        with find_sub_None [OF n u(2)] show False by blast
      qed
    qed
    then show "?g (u @ ''<svg'' @ render ps @ F) = None"
      by (simp add: re_attr_group_def)
  qed
  also have "\<dots> = re_search ?g (render ps @ F)"
    by (rule re_search_skip) (auto intro: re_attr_group_not_space)
  finally have "re_search ?g (pre @ ''<svg'' @ render ps @ F) = re_search ?g (render ps @ F)" .
  with re_search_attr_render [OF wf name(1-3) f, of F] show ?thesis
    by (auto simp: search_group_def)
qed

lemma search_group_clean:
  assumes name: "CHR '' '' \<notin> set name" "CHR ''='' \<notin> set name" "DQ \<notin> set name"
      "name \<noteq> []" "hd name \<noteq> CHR '' ''" "hd name \<noteq> CHR ''<''" "name \<noteq> ''id''"
    and id: "wf_attr ''id'' icon_name"
    and wf: "list_all wf_body_piece ps"
    and f: "find (is_attr name) ps = Some (Attr name v)"
  shows \<open>search_group name (''  <svg id="'' @ icon_name @ [DQ] @ render ps @ F) = Inr v\<close>
proof -
  let ?g = "re_attr_group name"
  let ?ps = "Attr ''id'' icon_name # ps"
  from name(4) obtain a name' where a: "name = a # name'" by (cases name) auto
  with name(5,6) have a': "a \<noteq> CHR '' ''" "a \<noteq> CHR ''<''" by simp_all
  have e: \<open>''  <svg id="'' @ icon_name @ [DQ] @ render ps @ F = ''  <svg'' @ render ?ps @ F\<close>
    by simp
  have 1: "?g (CHR '' '' # CHR '' '' # t) = None" for t
    unfolding a using a'(1) by (rule re_attr_group_second)
  have 2: "?g (CHR '' '' # CHR ''<'' # t) = None" for t
    unfolding a using a'(2) by (rule re_attr_group_second)
  have 3: "?g (c # t) = None" if "c \<noteq> CHR '' ''" for c t
    using that by (rule re_attr_group_not_space)
  have s: "re_search ?g (''  <svg'' @ render ?ps @ F) = re_search ?g (render ?ps @ F)"
    by (simp add: 1 2 3)
  have wf': "list_all wf_body_piece ?ps" using id wf by simp
  have f': "find (is_attr name) ?ps = Some (Attr name v)" using f name(7) by auto
  from re_search_attr_render [OF wf' name(1-3) f', of F] s show ?thesis
    unfolding e by (auto simp: search_group_def)
qed

lemma find_is_attr:
  assumes "\<exists>p\<in>set ps. is_attr name p"
  shows "\<exists>v. find (is_attr name) ps = Some (Attr name v)"
proof -
  from assms obtain p where "find (is_attr name) ps = Some p"
    by (cases "find (is_attr name) ps") (auto simp: find_None_iff)
  moreover then have "is_attr name p" by (auto simp: find_Some_iff)
  ultimately show ?thesis by (cases p) auto
qed

text \<open>
  C5 (as amended). Take an icon file whose root start tag is \<^verbatim>\<open><svg\<close>, a space that
  begins attributes written as a space, a name, \<^verbatim>\<open>=\<close> and a value in double quotes
  (names without white space and without \<^verbatim>\<open>= " < >\<close>, values without \<^verbatim>\<open>= " < >\<close>, only
  white space between attributes), then \<^verbatim>\<open>>\<close> or \<^verbatim>\<open>/>\<close>; the start tag has a \<^verbatim>\<open>width\<close> and
  a \<^verbatim>\<open>height\<close> attribute with values that are not empty; the text before the root start
  tag contains neither \<^verbatim>\<open><svg \<close> nor \<^verbatim>\<open> width="\<close> nor \<^verbatim>\<open> height="\<close>; the icon name has none
  of \<^verbatim>\<open>= " < >\<close>; the normalizer returns. Then the dimension extractor yields the same
  result (the same pair, or the same exception) on the original markup and on the
  normalized markup, which is the one the script uses.
\<close>

theorem dimensions_before_and_after:
  assumes pre: "\<not> contains ''<svg '' pre"
      \<open>\<not> contains '' width="'' pre\<close> \<open>\<not> contains '' height="'' pre\<close>
    and sp: "prefix '' '' (render ps)"
    and wf: "list_all wf_tag_piece ps"
    and close: "close = ''>'' \<or> close = ''/>''"
    and w: "\<exists>p\<in>set ps. is_attr ''width'' p"
    and h: "\<exists>p\<in>set ps. is_attr ''height'' p"
    and name: "wf_attr ''id'' icon_name"
    and cm: "clean_markup (pre @ ''<svg'' @ render ps @ close @ body) icon_name = Inr r"
  shows "get_icon_dimensions_from_markup (pre @ ''<svg'' @ render ps @ close @ body) =
           get_icon_dimensions_from_markup r"
proof -
  let ?markup = "pre @ ''<svg'' @ render ps @ close @ body"
  let ?kept = "filter (\<lambda>p. \<not> stripped p) ps"
  from cm clean_markup_render [OF pre(1) sp wf close, of body icon_name]
  obtain b where r: \<open>r = ''  <svg id="'' @ icon_name @ [DQ] @ render ?kept @ close @ b\<close>
    by (auto split: sum.splits)
  have wb: "list_all wf_body_piece ps"
    using wf wf_tag_body by (auto simp: list_all_iff)
  then have wk: "list_all wf_body_piece ?kept" by (rule list_all_filter)
  from find_is_attr [OF w] obtain wv where fw: "find (is_attr ''width'') ps = Some (Attr ''width'' wv)" ..
  from find_is_attr [OF h] obtain hv where fh: "find (is_attr ''height'') ps = Some (Attr ''height'' hv)" ..
  have fw': "find (is_attr ''width'') ?kept = Some (Attr ''width'' wv)"
    using fw find_filter_implied [of "is_attr ''width''" "\<lambda>p. \<not> stripped p" ps]
      is_attr_width_not_stripped by simp
  have fh': "find (is_attr ''height'') ?kept = Some (Attr ''height'' hv)"
    using fh find_filter_implied [of "is_attr ''height''" "\<lambda>p. \<not> stripped p" ps]
      is_attr_height_not_stripped by simp
  have w1: "search_group ''width'' ?markup = Inr wv"
    by (rule search_group_raw [OF _ _ _ _ _ wb fw]) (use pre(2) in simp_all)
  have h1: "search_group ''height'' ?markup = Inr hv"
    by (rule search_group_raw [OF _ _ _ _ _ wb fh]) (use pre(3) in simp_all)
  have w2: "search_group ''width'' r = Inr wv"
    unfolding r
    by (rule search_group_clean [OF _ _ _ _ _ _ _ name wk fw']) simp_all
  have h2: "search_group ''height'' r = Inr hv"
    unfolding r
    by (rule search_group_clean [OF _ _ _ _ _ _ _ name wk fh']) simp_all
  show ?thesis
    unfolding get_icon_dimensions_from_markup_def w1 h1 w2 h2 ..
qed

theorem dimensions_before_and_after_witness:
  \<open>\<not> contains ''<svg '' ex_pre \<and> \<not> contains '' width="'' ex_pre
   \<and> \<not> contains '' height="'' ex_pre
   \<and> prefix '' '' (render ex_tag) \<and> list_all wf_tag_piece ex_tag
   \<and> (\<exists>p\<in>set ex_tag. is_attr ''width'' p) \<and> (\<exists>p\<in>set ex_tag. is_attr ''height'' p)
   \<and> wf_attr ''id'' ''back''
   \<and> clean_markup (ex_pre @ ''<svg'' @ render ex_tag @ ''>'' @ render ex_body) ''back''
       = Inr ex_clean
   \<and> get_icon_dimensions_from_markup
        (ex_pre @ ''<svg'' @ render ex_tag @ ''>'' @ render ex_body) = Inr (24, 24)
   \<and> get_icon_dimensions_from_markup ex_clean = Inr (24, 24)\<close>
proof -
  have pre: "\<not> contains ''<svg '' ex_pre" \<open>\<not> contains '' width="'' ex_pre\<close>
    \<open>\<not> contains '' height="'' ex_pre\<close> by code_simp+
  have sp: "prefix '' '' (render ex_tag)" by code_simp
  have wf: "list_all wf_tag_piece ex_tag" by code_simp
  have close: "''>'' = ''>'' \<or> ''>'' = ''/>''" by simp
  have w: "\<exists>p\<in>set ex_tag. is_attr ''width'' p" by code_simp
  have h: "\<exists>p\<in>set ex_tag. is_attr ''height'' p" by code_simp
  have name: "wf_attr ''id'' ''back''" by code_simp
  have cm: "clean_markup (ex_pre @ ''<svg'' @ render ex_tag @ ''>'' @ render ex_body) ''back''
              = Inr ex_clean" by code_simp
  have d: "get_icon_dimensions_from_markup ex_clean = Inr (24, 24)" by code_simp
  from dimensions_before_and_after [OF pre sp wf close w h name cm] d
  have "get_icon_dimensions_from_markup
          (ex_pre @ ''<svg'' @ render ex_tag @ ''>'' @ render ex_body) = Inr (24, 24)"
    by simp
  with pre sp wf w h name cm d show ?thesis by blast
qed

text \<open>
  C5 as stated fails: a comment before the root start tag that contains a width and a
  height is read by the extractor on the original markup and dropped by the normalizer.
\<close>

theorem dimensions_in_prolog_counterexample:
  \<open>get_icon_dimensions_from_markup
     ''<!-- width="99" height="99" --><svg width="24" height="24"></svg>'' = Inr (99, 99)
   \<and> clean_markup ''<!-- width="99" height="99" --><svg width="24" height="24"></svg>'' ''a''
       = Inr (''  <svg id="a" width="24" height="24">'' @ [NL] @ ''  </svg>'' @ [NL])
   \<and> get_icon_dimensions_from_markup
       (''  <svg id="a" width="24" height="24">'' @ [NL] @ ''  </svg>'' @ [NL]) = Inr (24, 24)\<close>
  by code_simp

section \<open>Replacements create no attribute\<close>


















section \<open>The text behind the start tag\<close>













section \<open>The attributes of a normalized icon\<close>












section \<open>Decimal numerals\<close>











section \<open>Loading icon files of a given size\<close>





section \<open>Runs on well-formed icon files\<close>















end
